theory Spec2Isabelle
  imports Main "HOL-Library.Word"
begin

section \<open>Strings and characters\<close>

text \<open>
  An Arduino \<open>String\<close> on the ESP cores is a length-counted byte buffer: \<open>+=\<close> of a
  character or of another \<open>String\<close> copies by length, so a \<open>String\<close> is modelled as a
  \<open>char list\<close> (\<open>char\<close> is a byte). Allocation is assumed to succeed.
  \<open>size_t\<close>, \<open>unsigned long\<close> and \<open>long\<close> are 32 bits wide on ESP8266 and ESP32.
\<close>

definition LF :: char where
  "LF = CHR 0x0A"

definition CR :: char where
  "CR = CHR 0x0D"

definition CRLF :: string where
  "CRLF = [CR, LF]"

definition NUL :: char where
  "NUL = CHR 0x00"

definition ord :: "char \<Rightarrow> nat" where
  "ord c = of_char c"

text \<open>\<open>isspace\<close> of the C locale: space, and the control characters 9 to 13.\<close>

definition isspace :: "char \<Rightarrow> bool" where
  "isspace c = (ord c = 32 \<or> (9 \<le> ord c \<and> ord c \<le> 13))"

text \<open>\<open>String::trim\<close>: drops the whitespace at both ends.\<close>

definition trim :: "string \<Rightarrow> string" where
  "trim s = rev (dropWhile isspace (rev (dropWhile isspace s)))"

text \<open>
  \<open>String::substring (left, right)\<close>: the bounds are swapped when out of order, an
  empty string is returned when \<open>left\<close> is at or past the end, and \<open>right\<close> is cut to
  the length.
\<close>

definition substring :: "string \<Rightarrow> nat \<Rightarrow> nat \<Rightarrow> string" where
  "substring s a b =
     (let l = (if b < a then b else a);
          r = (if b < a then a else b)
      in if length s \<le> l then []
         else take (min r (length s) - l) (drop l s))"

definition substring_from :: "string \<Rightarrow> nat \<Rightarrow> string" where
  "substring_from s a = substring s a (length s)"

definition startsWith :: "string \<Rightarrow> string \<Rightarrow> bool" where
  "startsWith s p = (length p \<le> length s \<and> take (length p) s = p)"

definition endsWith :: "string \<Rightarrow> string \<Rightarrow> bool" where
  "endsWith s p = (length p \<le> length s \<and> drop (length s - length p) s = p)"

text \<open>
  The C string seen through \<open>c_str()\<close> ends at the first NUL byte; \<open>strchr\<close>,
  \<open>strstr\<close>, \<open>strtoul\<close> and \<open>atol\<close> see only that part.
\<close>

definition c_str :: "string \<Rightarrow> string" where
  "c_str s = takeWhile (\<lambda>c. c \<noteq> NUL) s"

fun find_char :: "char \<Rightarrow> string \<Rightarrow> nat \<Rightarrow> int" where
  "find_char ch [] i = -1"
| "find_char ch (c # cs) i = (if c = ch then int i else find_char ch cs (Suc i))"

text \<open>\<open>String::indexOf (char)\<close>: the index of the first occurrence, or -1.\<close>

definition indexOf :: "string \<Rightarrow> char \<Rightarrow> int" where
  "indexOf s ch = find_char ch (c_str s) 0"

fun strstr :: "string \<Rightarrow> string \<Rightarrow> bool" where
  "strstr [] ned = (ned = [])"
| "strstr (h # hs) ned = (take (length ned) (h # hs) = ned \<or> strstr hs ned)"

definition tolower :: "char \<Rightarrow> char" where
  "tolower c = (if 65 \<le> ord c \<and> ord c \<le> 90 then char_of (ord c + 32) else c)"

definition toLowerCase :: "string \<Rightarrow> string" where
  "toLowerCase s = map tolower s"

text \<open>The value of a digit in a base, if the character is one.\<close>

definition digit_val :: "nat \<Rightarrow> char \<Rightarrow> nat option" where
  "digit_val base c =
     (let v = (if 48 \<le> ord c \<and> ord c \<le> 57 then Some (ord c - 48)
               else if 97 \<le> ord c \<and> ord c \<le> 122 then Some (ord c - 87)
               else if 65 \<le> ord c \<and> ord c \<le> 90 then Some (ord c - 55)
               else None)
      in case v of None \<Rightarrow> None | Some d \<Rightarrow> if d < base then Some d else None)"

text \<open>
  The digits that \<open>strtoul\<close> and \<open>strtol\<close> read: as many as there are, the value
  accumulated without bound (the callers saturate it), and whether any digit was read.
\<close>

fun read_digits :: "nat \<Rightarrow> string \<Rightarrow> nat \<Rightarrow> bool \<Rightarrow> nat \<times> bool" where
  "read_digits base [] acc any = (acc, any)"
| "read_digits base (c # cs) acc any =
     (case digit_val base c of
        None \<Rightarrow> (acc, any)
      | Some d \<Rightarrow> read_digits base cs (acc * base + d) True)"

text \<open>The optional sign after the leading whitespace: whether it is a minus, and the rest.\<close>

fun read_sign :: "string \<Rightarrow> bool \<times> string" where
  "read_sign [] = (False, [])"
| "read_sign (c # cs) =
     (if c = CHR ''-'' then (True, cs)
      else if c = CHR ''+'' then (False, cs)
      else (False, c # cs))"

text \<open>
  The optional \<open>0x\<close> or \<open>0X\<close> of base 16, taken only when a hexadecimal digit
  follows it.
\<close>

fun skip_0x :: "string \<Rightarrow> string" where
  "skip_0x (z # x # d # cs) =
     (if z = CHR ''0'' \<and> (x = CHR ''x'' \<or> x = CHR ''X'') \<and> digit_val 16 d \<noteq> None
      then d # cs else z # x # d # cs)"
| "skip_0x cs = cs"

text \<open>
  \<open>strtoul (s, nullptr, 16)\<close> with a 32-bit \<open>unsigned long\<close>: leading whitespace, an
  optional sign, an optional \<open>0x\<close>, the digits; no digit gives 0, a value out of range
  gives \<open>ULONG_MAX\<close>, and a minus sign negates the value in range modulo \<open>2 ^ 32\<close>.
\<close>

definition strtoul16 :: "string \<Rightarrow> nat" where
  "strtoul16 s =
     (let (neg, r) = read_sign (dropWhile isspace (c_str s));
          (v, any) = read_digits 16 (skip_0x r) 0 False
      in if \<not> any then 0
         else if 2 ^ 32 \<le> v then 2 ^ 32 - 1
         else if neg then (2 ^ 32 - v) mod 2 ^ 32
         else v)"

text \<open>
  \<open>String::toInt\<close> is \<open>atol\<close>, that is \<open>strtol (s, nullptr, 10)\<close> with a 32-bit
  \<open>long\<close>: a value out of range gives \<open>LONG_MAX\<close> or \<open>LONG_MIN\<close>.
\<close>

definition toInt :: "string \<Rightarrow> int" where
  "toInt s =
     (let (neg, r) = read_sign (dropWhile isspace (c_str s));
          (v, any) = read_digits 10 r 0 False
      in if \<not> any then 0
         else if neg then (if 2 ^ 31 \<le> v then - (2 ^ 31) else - int v)
         else (if 2 ^ 31 \<le> v then 2 ^ 31 - 1 else int v))"

text \<open>
  \<open>String (unsigned value, base)\<close> is \<open>utoa\<close>: the digits in the base, most
  significant first, in lower case. The base is 10 when not given.
\<close>

definition digit_char :: "nat \<Rightarrow> char" where
  "digit_char d = (if d < 10 then char_of (48 + d) else char_of (87 + d))"

function to_digits :: "nat \<Rightarrow> nat \<Rightarrow> string" where
  "to_digits b n =
     (if b < 2 \<or> n < b then [digit_char n]
      else to_digits b (n div b) @ [digit_char (n mod b)])"
  by pat_completeness auto

termination to_digits
  by (relation "measure snd") auto

declare to_digits.simps [simp del]

definition digits10 :: "nat \<Rightarrow> string" where
  "digits10 n = to_digits 10 n"

section \<open>The byte stream\<close>

text \<open>
  Modelled from the spec: the secure client (\<open>SecureClientT\<close>, a library class) is the
  byte-stream contract of the specification, \<open>connect\<close>, \<open>connected\<close>,
  \<open>bytesAvailable\<close>, \<open>readByte\<close>, \<open>readInto\<close>, \<open>write\<close> and \<open>close\<close>. The stream
  holds the bytes that have arrived and are not yet read (\<open>rx\<close>), the bytes written
  (\<open>tx\<close>), and what the outside decides: whether a \<open>connect\<close> will succeed and how many
  bytes the next write accepts.
\<close>

record stream =
  connected :: bool
  rx :: string
  tx :: string
  connect_ok :: bool
  tx_room :: nat

definition available :: "stream \<Rightarrow> nat" where
  "available s = length (rx s)"

text \<open>\<open>read ()\<close>: the next byte, or nothing (-1 in the source) when none is there.\<close>

definition read1 :: "stream \<Rightarrow> char option \<times> stream" where
  "read1 s = (case rx s of [] \<Rightarrow> (None, s) | c # cs \<Rightarrow> (Some c, s\<lparr>rx := cs\<rparr>))"

text \<open>\<open>read (buf, want)\<close>: at most \<open>want\<close> of the bytes that are there.\<close>

definition read_into :: "nat \<Rightarrow> stream \<Rightarrow> string \<times> stream" where
  "read_into want s = (take want (rx s), s\<lparr>rx := drop want (rx s)\<rparr>)"

text \<open>\<open>print (buffer)\<close>: writes what the stream accepts and returns the count.\<close>

definition print :: "string \<Rightarrow> stream \<Rightarrow> nat \<times> stream" where
  "print buf s =
     (let w = min (length buf) (tx_room s)
      in (w, s\<lparr>tx := tx s @ take w buf, tx_room := tx_room s - w\<rparr>))"

definition connect :: "stream \<Rightarrow> bool \<times> stream" where
  "connect s = (if connect_ok s then (True, s\<lparr>connected := True\<rparr>) else (False, s))"

text \<open>\<open>stop ()\<close>: closes the stream and drops what was not read.\<close>

definition stop_stream :: "stream \<Rightarrow> stream" where
  "stop_stream s = s\<lparr>connected := False, rx := []\<rparr>"

section \<open>The engine of AsyncHttpsClient\<close>

datatype Method = M_GET | M_POST

datatype State = IDLE | CONNECT | SEND | READ_HEADERS | READ_BODY | DONE | ERROR

datatype ChunkState = CHUNK_SIZE | CHUNK_DATA | CHUNK_CRLF | CHUNK_DONE

record Options =
  timeoutMs :: "32 word"
  tlsHandshakeTimeout :: "16 word"
  maxHeaderBytes :: "32 word"
  maxBodyBytes :: "32 word"
  ioChunkSize :: "32 word"
  keepBody :: bool

definition default_Options :: Options where
  "default_Options =
     \<lparr>timeoutMs = 15000, tlsHandshakeTimeout = 12000, maxHeaderBytes = 4096,
      maxBodyBytes = 16 * 1024, ioChunkSize = 512, keepBody = True\<rparr>"

text \<open>
  The fields of the class. The counters \<open>headerBytes\<close> and \<open>chunkRemaining\<close> are
  \<open>size_t\<close>: natural numbers here, with the wrap-around modulo \<open>2 ^ 32\<close> written
  where the source can wrap. The length of a \<open>String\<close> plus the length of a buffer
  that is in memory beside it stays below \<open>2 ^ 32\<close> in a 32-bit address space, so
  such sums are plain sums. The field \<open>_method\<close> is \<open>reqMethod\<close> here.
\<close>

record engine =
  client :: stream
  opt :: Options
  reqMethod :: Method
  state :: State
  host :: string
  path :: string
  port :: "16 word"
  caPem :: "string option"
  hasCa :: bool
  nowEpoch :: int
  hasTime :: bool
  req :: string
  line :: string
  err :: string
  body :: string
  bodyOverflow :: bool
  httpStatus :: int
  headerBytes :: nat
  contentLength :: int
  chunked :: bool
  seenHeaderEnd :: bool
  t0 :: "32 word"
  chunkState :: ChunkState
  chunkLine :: string
  chunkRemaining :: nat

definition fail :: "string \<Rightarrow> engine \<Rightarrow> engine" where
  "fail msg e = e\<lparr>err := msg, state := ERROR, client := stop_stream (client e)\<rparr>"

definition stop :: "engine \<Rightarrow> engine" where
  "stop e = e\<lparr>client := stop_stream (client e), state := IDLE\<rparr>"

definition reset :: "engine \<Rightarrow> engine" where
  "reset e =
     (stop e)\<lparr>err := [], httpStatus := -1, body := [], bodyOverflow := False,
       req := [], headerBytes := 0, contentLength := -1, chunked := False,
       seenHeaderEnd := False, line := [], chunkState := CHUNK_SIZE,
       chunkRemaining := 0, chunkLine := []\<rparr>"

text \<open>
  \<open>onBodyChunk\<close>, the default body sink: the returned flag is the source's return
  value (\<open>False\<close> aborts).
\<close>

definition onBodyChunk :: "string \<Rightarrow> engine \<Rightarrow> bool \<times> engine" where
  "onBodyChunk data e =
     (if \<not> keepBody (opt e) then (True, e)
      else if unat (maxBodyBytes (opt e)) < length (body e) + length data
        then (False, e\<lparr>bodyOverflow := True\<rparr>)
      else (True, e\<lparr>body := body e @ data\<rparr>))"

text \<open>
  \<open>setCACert\<close>: the pointer is \<open>None\<close> when null; the certificate counts as present
  when its first byte is not NUL. \<open>setUnixTime\<close>: the time counts as set when it is
  later than 1600000000.
\<close>

definition setCACert :: "string option \<Rightarrow> engine \<Rightarrow> engine" where
  "setCACert pem e =
     e\<lparr>caPem := pem,
       hasCa := (case pem of None \<Rightarrow> False | Some s \<Rightarrow> c_str s \<noteq> [])\<rparr>"

definition setUnixTime :: "int \<Rightarrow> engine \<Rightarrow> engine" where
  "setUnixTime t e = e\<lparr>nowEpoch := t, hasTime := (1600000000 < t)\<rparr>"

definition setOptions :: "Options \<Rightarrow> engine \<Rightarrow> engine" where
  "setOptions o' e = e\<lparr>opt := o'\<rparr>"

text \<open>
  \<open>beginRequest\<close>; \<open>now\<close> is what \<open>millis ()\<close> returns. The calls that configure
  TLS on the client have no effect on the byte stream of the model.
\<close>

definition request_head :: "Method \<Rightarrow> string \<Rightarrow> string \<Rightarrow> string \<Rightarrow> string" where
  "request_head m h pth extra =
     (if m = M_GET then ''GET '' else ''POST '') @ pth @ '' HTTP/1.1'' @ CRLF @
     ''Host: '' @ h @ CRLF @ ''User-Agent: esp-secure/1.0'' @ CRLF @
     ''Accept: */*'' @ CRLF @ ''Connection: close'' @ CRLF @
     (if 0 < length extra
      then extra @ (if \<not> endsWith extra CRLF then CRLF else [])
      else [])"

definition beginRequest ::
  "Method \<Rightarrow> string \<Rightarrow> 16 word \<Rightarrow> string \<Rightarrow> string \<Rightarrow> string \<Rightarrow> string \<Rightarrow> 32 word
     \<Rightarrow> engine \<Rightarrow> bool \<times> engine" where
  "beginRequest m h p pth bdy contentType extra now e0 =
     (let e = reset e0
      in if \<not> hasCa e then (False, fail ''TLS CA cert not set (setCACert)'' e)
         else if \<not> hasTime e
           then (False, fail ''System time not set (setUnixTime / SNTP)'' e)
         else
           let e1 = e\<lparr>reqMethod := m, host := h, port := p, path := pth\<rparr>;
               r = req e1 @ request_head m h pth extra @
                   (if m = M_POST
                    then ''Content-Type: '' @ contentType @ CRLF @
                         ''Content-Length: '' @ digits10 (length bdy) @ CRLF @ CRLF @ bdy
                    else CRLF)
           in (True, e1\<lparr>req := r, t0 := now, state := CONNECT\<rparr>))"

definition beginGet ::
  "string \<Rightarrow> 16 word \<Rightarrow> string \<Rightarrow> string \<Rightarrow> 32 word \<Rightarrow> engine \<Rightarrow> bool \<times> engine" where
  "beginGet h p pth extra now e = beginRequest M_GET h p pth [] [] extra now e"


definition stepConnect :: "engine \<Rightarrow> engine" where
  "stepConnect e =
     (if connected (client e) then e\<lparr>state := SEND\<rparr>
      else case connect (client e) of
             (False, s) \<Rightarrow> fail ''connect/TLS failed'' (e\<lparr>client := s\<rparr>)
           | (True, s) \<Rightarrow> e\<lparr>client := s, state := SEND\<rparr>)"

definition stepSend :: "engine \<Rightarrow> engine" where
  "stepSend e =
     (if \<not> connected (client e) then fail ''socket closed before send'' e
      else case print (req e) (client e) of
             (w, s) \<Rightarrow>
               if w = 0 then fail ''send failed'' (e\<lparr>client := s\<rparr>)
               else e\<lparr>client := s, state := READ_HEADERS\<rparr>)"

definition startsWithNoCase :: "string \<Rightarrow> string \<Rightarrow> bool" where
  "startsWithNoCase s prefix =
     (if length s < length prefix then False
      else list_all2 (\<lambda>a b. tolower a = tolower b) (take (length prefix) s) prefix)"

definition containsNoCase :: "string \<Rightarrow> string \<Rightarrow> bool" where
  "containsNoCase s needle = strstr (c_str (toLowerCase s)) (toLowerCase needle)"

text \<open>
  The block of \<open>stepReadHeaders\<close> that handles a complete line (the line buffer ends
  with the newline just read). The flag says whether the state machine left the header
  loop (the \<open>return\<close> at the empty line); otherwise the loop goes on.
\<close>

definition header_line :: "engine \<Rightarrow> bool \<times> engine" where
  "header_line e =
     (let ln = trim (line e);
          e1 = e\<lparr>line := []\<rparr>
      in if length ln = 0 then (True, e1\<lparr>seenHeaderEnd := True, state := READ_BODY\<rparr>)
         else if startsWith ln ''HTTP/1.1'' \<and> 12 \<le> length ln
           then (False, e1\<lparr>httpStatus := toInt (substring ln 9 12)\<rparr>)
         else if startsWithNoCase ln ''Content-Length:''
           then (False, e1\<lparr>contentLength :=
                   toInt (trim (substring_from ln (length ''Content-Length:'')))\<rparr>)
         else if startsWithNoCase ln ''Transfer-Encoding:''
           then (False, if containsNoCase ln ''chunked'' then e1\<lparr>chunked := True\<rparr> else e1)
         else (False, e1))"

text \<open>The \<open>while\<close> loop of \<open>stepReadHeaders\<close>, one byte of the stream at a time.\<close>

function headers_loop :: "engine \<Rightarrow> engine" where
  "headers_loop e =
     (if available (client e) = 0 then e
      else case read1 (client e) of
             (None, s) \<Rightarrow> e\<lparr>client := s\<rparr>
           | (Some ch, s) \<Rightarrow>
               let e1 = e\<lparr>client := s, headerBytes := (headerBytes e + 1) mod 2 ^ 32\<rparr>
               in if unat (maxHeaderBytes (opt e1)) < headerBytes e1
                    then fail ''headers too large'' e1
                  else
                    let e2 = e1\<lparr>line := line e1 @ [ch]\<rparr>
                    in if 512 < length (line e2) then fail ''header line too long'' e2
                       else if ch = LF
                         then (case header_line e2 of
                                 (True, e3) \<Rightarrow> e3
                               | (False, e3) \<Rightarrow> headers_loop e3)
                       else headers_loop e2)"
  by pat_completeness auto

lemma header_line_client: "header_line e = (b, e') \<Longrightarrow> client e' = client e"
  by (auto simp: header_line_def Let_def split: if_splits)

lemma read1_Some_length: "read1 s = (Some c, s') \<Longrightarrow> length (rx s') < length (rx s)"
  by (auto simp: read1_def split: list.splits)

termination headers_loop
  apply (relation "measure (\<lambda>e. length (rx (client e)))")
    apply simp
   apply (auto dest!: read1_Some_length[OF sym] header_line_client[OF sym])
  done

declare headers_loop.simps [simp del]

definition stepReadHeaders :: "engine \<Rightarrow> engine" where
  "stepReadHeaders e =
     (if \<not> connected (client e) \<and> available (client e) = 0
      then fail ''closed during headers'' e
      else headers_loop e)"

text \<open>The size of the read buffer: the I/O chunk size, at most the 768 bytes of \<open>bufLocal\<close>.\<close>

definition bufSz :: "engine \<Rightarrow> nat" where
  "bufSz e = min (unat (ioChunkSize (opt e))) 768"

text \<open>The message of a failure after the sink has refused a fragment.\<close>

definition sink_failure :: "engine \<Rightarrow> engine" where
  "sink_failure e =
     fail (if bodyOverflow e then ''body exceeded maxBodyBytes'' else ''body handler aborted'') e"

lemma onBodyChunk_client: "onBodyChunk d e = (b, e') \<Longrightarrow> client e' = client e"
  by (auto simp: onBodyChunk_def split: if_splits)

text \<open>
  The \<open>while\<close> loop of \<open>stepReadBody\<close>. The flag of the result says whether the
  function has returned from inside the loop (after a failure); otherwise the loop has
  ended and the check for the end of the stream follows.
\<close>

function body_loop :: "engine \<Rightarrow> bool \<times> engine" where
  "body_loop e =
     (if available (client e) = 0 then (False, e)
      else case read_into (bufSz e) (client e) of
             (buf, s) \<Rightarrow>
               if length buf = 0 then (False, e\<lparr>client := s\<rparr>)
               else (case onBodyChunk buf (e\<lparr>client := s\<rparr>) of
                       (False, e1) \<Rightarrow> (True, sink_failure e1)
                     | (True, e1) \<Rightarrow> body_loop e1))"
  by pat_completeness auto

lemma read_into_length:
  "read_into w s = (buf, s') \<Longrightarrow> length (rx s') + length buf = length (rx s)"
  by (auto simp: read_into_def)

termination body_loop
  apply (relation "measure (\<lambda>e. length (rx (client e)))")
   apply simp
  apply (auto dest!: read_into_length[OF sym] onBodyChunk_client[OF sym])
  apply (case_tac x; simp)
  done

declare body_loop.simps [simp del]

text \<open>
  The block of \<open>stepReadChunkedBody\<close> at the newline that ends a chunk size line.
\<close>

definition chunk_size_line :: "engine \<Rightarrow> engine" where
  "chunk_size_line e =
     (let cl = trim (chunkLine e);
          semi = indexOf cl (CHR '';'');
          sizeStr = trim (if 0 \<le> semi then substring cl 0 (nat semi) else cl);
          r = strtoul16 sizeStr
      in e\<lparr>chunkRemaining := r, chunkLine := [],
           chunkState := (if r = 0 then CHUNK_DONE else CHUNK_DATA)\<rparr>)"

text \<open>
  The inner \<open>while\<close> loop of the state \<open>CHUNK_DATA\<close>: bulk reads of the rest of the
  chunk. A read returns at most \<open>want\<close> bytes and \<open>want\<close> is at most the remaining
  count, so the subtraction does not wrap. The flag is as in \<open>body_loop\<close>.
\<close>

function bulk_loop :: "engine \<Rightarrow> bool \<times> engine" where
  "bulk_loop e =
     (if 0 < chunkRemaining e \<and> available (client e) \<noteq> 0
      then case read_into (min (chunkRemaining e) (bufSz e)) (client e) of
             (buf, s) \<Rightarrow>
               if length buf = 0 then (False, e\<lparr>client := s\<rparr>)
               else (case onBodyChunk buf (e\<lparr>client := s\<rparr>) of
                       (False, e1) \<Rightarrow> (True, sink_failure e1)
                     | (True, e1) \<Rightarrow>
                         bulk_loop (e1\<lparr>chunkRemaining := chunkRemaining e1 - length buf\<rparr>))
      else (False, e))"
  by pat_completeness auto

termination bulk_loop
  apply (relation "measure (\<lambda>e. length (rx (client e)))")
   apply simp
  apply (auto dest!: read_into_length[OF sym] onBodyChunk_client[OF sym])
  apply (case_tac x; simp)
  done

declare bulk_loop.simps [simp del]

lemma bulk_loop_stop:
  "\<not> (0 < chunkRemaining e \<and> available (client e) \<noteq> 0) \<Longrightarrow> bulk_loop e = (False, e)"
  by (subst bulk_loop.simps) auto

lemma bulk_loop_step:
  assumes "0 < chunkRemaining e" and "available (client e) \<noteq> 0"
    and "read_into (min (chunkRemaining e) (bufSz e)) (client e) = (buf, s)"
  shows "bulk_loop e =
     (if length buf = 0 then (False, e\<lparr>client := s\<rparr>)
      else (case onBodyChunk buf (e\<lparr>client := s\<rparr>) of
              (False, e1) \<Rightarrow> (True, sink_failure e1)
            | (True, e1) \<Rightarrow>
                bulk_loop (e1\<lparr>chunkRemaining := chunkRemaining e1 - length buf\<rparr>)))"
  using assms by (subst bulk_loop.simps) simp

lemma sink_failure_rx: "rx (client (sink_failure e)) = []"
  by (simp add: sink_failure_def fail_def stop_stream_def)

lemma bulk_loop_rx:
  "bulk_loop e = (b, e') \<Longrightarrow> length (rx (client e')) \<le> length (rx (client e))"
proof (induction e arbitrary: b e' rule: bulk_loop.induct)
  case (1 e)
  show ?case
  proof (cases "0 < chunkRemaining e \<and> available (client e) \<noteq> 0")
    case False
    with "1.prems" show ?thesis
      by (simp add: bulk_loop_stop)
  next
    case True
    obtain buf s where r: "read_into (min (chunkRemaining e) (bufSz e)) (client e) = (buf, s)"
      by (cases "read_into (min (chunkRemaining e) (bufSz e)) (client e)")
    from r have len: "length (rx s) + length buf = length (rx (client e))"
      by (rule read_into_length)
    note step = bulk_loop_step [OF conjunct1 [OF True] conjunct2 [OF True] r]
    show ?thesis
    proof (cases "length buf = 0")
      case z: True
      with step "1.prems" len show ?thesis
        by auto
    next
      case nz: False
      obtain ok e1 where o: "onBodyChunk buf (e\<lparr>client := s\<rparr>) = (ok, e1)"
        by (cases "onBodyChunk buf (e\<lparr>client := s\<rparr>)")
      from o have c1: "client e1 = s"
        by (auto dest: onBodyChunk_client)
      show ?thesis
      proof (cases ok)
        case False
        with step nz o "1.prems" have "e' = sink_failure e1"
          by simp
        then show ?thesis
          by (simp add: sink_failure_rx)
      next
        case ok: True
        with step nz o "1.prems"
        have "bulk_loop (e1\<lparr>chunkRemaining := chunkRemaining e1 - length buf\<rparr>) = (b, e')"
          by simp
        with "1.IH" [OF True r [symmetric] nz o [symmetric, unfolded ok]]
        have "length (rx (client e')) \<le> length (rx s)"
          using c1 ok by simp
        with len show ?thesis
          by simp
      qed
    qed
  qed
qed

text \<open>
  The outer \<open>while\<close> loop of \<open>stepReadChunkedBody\<close>: one byte is read, then the
  chunk state decides. \<open>chunkRemaining--\<close> wraps at zero. The flag is as in
  \<open>body_loop\<close>.
\<close>

function chunked_loop :: "engine \<Rightarrow> bool \<times> engine" where
  "chunked_loop e =
     (if available (client e) = 0 then (False, e)
      else case read1 (client e) of
             (None, s) \<Rightarrow> (False, e\<lparr>client := s\<rparr>)
           | (Some ch, s) \<Rightarrow>
               (case chunkState e of
                  CHUNK_SIZE \<Rightarrow>
                    if ch = LF then chunked_loop (chunk_size_line (e\<lparr>client := s\<rparr>))
                    else if 64 < length (chunkLine e @ [ch])
                      then (True, fail ''chunk size line too long''
                                    (e\<lparr>client := s, chunkLine := chunkLine e @ [ch]\<rparr>))
                    else chunked_loop (e\<lparr>client := s, chunkLine := chunkLine e @ [ch]\<rparr>)
                | CHUNK_DATA \<Rightarrow>
                    (case onBodyChunk [ch] (e\<lparr>client := s\<rparr>) of
                       (False, e1) \<Rightarrow> (True, sink_failure e1)
                     | (True, e1) \<Rightarrow>
                         (case bulk_loop
                                 (e1\<lparr>chunkRemaining :=
                                       (if chunkRemaining e1 = 0 then 2 ^ 32 - 1
                                        else chunkRemaining e1 - 1)\<rparr>) of
                            (True, e2) \<Rightarrow> (True, e2)
                          | (False, e2) \<Rightarrow>
                              chunked_loop
                                (if chunkRemaining e2 = 0 then e2\<lparr>chunkState := CHUNK_CRLF\<rparr>
                                 else e2)))
                | CHUNK_CRLF \<Rightarrow>
                    chunked_loop
                      (if ch = LF then e\<lparr>client := s, chunkState := CHUNK_SIZE\<rparr>
                       else e\<lparr>client := s\<rparr>)
                | CHUNK_DONE \<Rightarrow> chunked_loop (e\<lparr>client := s\<rparr>)))"
  by pat_completeness auto

lemma chunk_size_line_client: "client (chunk_size_line e) = client e"
  by (simp add: chunk_size_line_def Let_def)

termination chunked_loop
  apply (relation "measure (\<lambda>e. length (rx (client e)))")
       apply simp
      apply (auto simp: chunk_size_line_client
        dest!: read1_Some_length[OF sym] onBodyChunk_client[OF sym] bulk_loop_rx[OF sym])
  done

declare chunked_loop.simps [simp del]

definition stepReadChunkedBody :: "engine \<Rightarrow> engine" where
  "stepReadChunkedBody e =
     (case chunked_loop e of
        (True, e1) \<Rightarrow> e1
      | (False, e1) \<Rightarrow>
          if \<not> connected (client e1) \<and> available (client e1) = 0
          then e1\<lparr>client := stop_stream (client e1), state := DONE\<rparr>
          else e1)"

definition stepReadBody :: "engine \<Rightarrow> engine" where
  "stepReadBody e =
     (if \<not> seenHeaderEnd e then e
      else if chunked e then stepReadChunkedBody e
      else case body_loop e of
             (True, e1) \<Rightarrow> e1
           | (False, e1) \<Rightarrow>
               if \<not> connected (client e1) \<and> available (client e1) = 0
               then e1\<lparr>client := stop_stream (client e1), state := DONE\<rparr>
               else e1)"

text \<open>\<open>poll\<close>; \<open>now\<close> is what \<open>millis ()\<close> returns, a 32-bit counter that wraps.\<close>

definition poll :: "32 word \<Rightarrow> engine \<Rightarrow> engine" where
  "poll now e =
     (if state e = IDLE \<or> state e = DONE \<or> state e = ERROR then e
      else if timeoutMs (opt e) < now - t0 e then fail ''timeout'' e
      else case state e of
             CONNECT \<Rightarrow> stepConnect e
           | SEND \<Rightarrow> stepSend e
           | READ_HEADERS \<Rightarrow> stepReadHeaders e
           | READ_BODY \<Rightarrow> stepReadBody e
           | _ \<Rightarrow> e)"

section \<open>The engine of ESPAsyncHttpsClient\<close>

text \<open>
  The second class has the same state machine without the TLS prerequisites, the header
  and body caps and the chunked decoder. Its names carry the prefix \<open>esp\<close>.
\<close>

record esp_engine =
  esp_client :: stream
  esp_method :: Method
  esp_state :: State
  esp_host :: string
  esp_path :: string
  esp_port :: "16 word"
  esp_request :: string
  esp_body :: string
  esp_err :: string
  esp_status :: int
  esp_startMs :: "32 word"
  esp_timeoutMs :: "32 word"
  esp_useInsecure :: bool
  esp_hasCACert :: bool
  esp_caPem :: "string option"

definition esp_setTimeoutMs :: "32 word \<Rightarrow> esp_engine \<Rightarrow> esp_engine" where
  "esp_setTimeoutMs t e = e\<lparr>esp_timeoutMs := t\<rparr>"

definition esp_setInsecureTLS :: "bool \<Rightarrow> esp_engine \<Rightarrow> esp_engine" where
  "esp_setInsecureTLS on e = e\<lparr>esp_useInsecure := on, esp_hasCACert := False, esp_caPem := None\<rparr>"

definition esp_setCACert :: "string option \<Rightarrow> esp_engine \<Rightarrow> esp_engine" where
  "esp_setCACert pem e =
     (let has = (case pem of None \<Rightarrow> False | Some s \<Rightarrow> c_str s \<noteq> [])
      in e\<lparr>esp_caPem := pem, esp_hasCACert := has, esp_useInsecure := \<not> has\<rparr>)"

definition esp_fail :: "string \<Rightarrow> esp_engine \<Rightarrow> esp_engine" where
  "esp_fail msg e =
     e\<lparr>esp_err := msg, esp_state := ERROR, esp_client := stop_stream (esp_client e)\<rparr>"

definition esp_reset :: "esp_engine \<Rightarrow> esp_engine" where
  "esp_reset e =
     e\<lparr>esp_client := stop_stream (esp_client e), esp_state := IDLE, esp_status := -1,
       esp_err := [], esp_body := [], esp_request := [], esp_startMs := 0\<rparr>"

definition esp_onBodyChunk :: "string \<Rightarrow> esp_engine \<Rightarrow> esp_engine" where
  "esp_onBodyChunk data e = e\<lparr>esp_body := esp_body e @ data\<rparr>"

definition esp_beginRequest ::
  "Method \<Rightarrow> string \<Rightarrow> 16 word \<Rightarrow> string \<Rightarrow> string \<Rightarrow> string \<Rightarrow> 32 word
     \<Rightarrow> esp_engine \<Rightarrow> esp_engine" where
  "esp_beginRequest m h p pth bdy contentType now e0 =
     (let e = (esp_reset e0)\<lparr>esp_method := m, esp_host := h, esp_port := p, esp_path := pth\<rparr>;
          r = (if m = M_GET then ''GET '' else ''POST '') @ esp_path e @ '' HTTP/1.1'' @ CRLF @
              ''Host: '' @ esp_host e @ CRLF @ ''User-Agent: esp'' @ CRLF @
              ''Accept: */*'' @ CRLF @ ''Connection: close'' @ CRLF;
          r' = (if m = M_POST
                then r @ ''Content-Type: '' @ contentType @ CRLF @
                     ''Content-Length: '' @ digits10 (length bdy) @ CRLF @ CRLF @ bdy
                else r @ CRLF)
      in e\<lparr>esp_request := r', esp_startMs := now, esp_state := CONNECT\<rparr>)"

definition esp_beginGet ::
  "string \<Rightarrow> 16 word \<Rightarrow> string \<Rightarrow> 32 word \<Rightarrow> esp_engine \<Rightarrow> esp_engine" where
  "esp_beginGet h p pth now e = esp_beginRequest M_GET h p pth [] [] now e"


text \<open>
  \<open>Stream::readStringUntil\<close>: the bytes up to the terminator, which is consumed and
  not returned, or all the bytes there are when the terminator does not come.
\<close>

definition readStringUntil :: "char \<Rightarrow> stream \<Rightarrow> string \<times> stream" where
  "readStringUntil t s =
     (let ln = takeWhile (\<lambda>c. c \<noteq> t) (rx s)
      in (ln, s\<lparr>rx := drop (Suc (length ln)) (rx s)\<rparr>))"

text \<open>The status code that a header line sets, or the one there was.\<close>

definition esp_status_of :: "string \<Rightarrow> int \<Rightarrow> int" where
  "esp_status_of ln old =
     (if startsWith ln ''HTTP/1.1'' \<and> 12 \<le> length ln then toInt (substring ln 9 12)
      else if startsWith ln ''HTTP/2''
        then (let sp = indexOf ln (CHR '' '')
              in if 0 < sp \<and> nat sp + 4 \<le> length ln
                 then toInt (substring ln (nat sp + 1) (nat sp + 4))
                 else old)
      else old)"

text \<open>
  The loops of the states \<open>READ_HEADERS\<close> and \<open>READ_BODY\<close> of \<open>poll\<close>. The flag of
  the header loop says whether \<open>poll\<close> has returned from inside it.
\<close>

function esp_headers_loop :: "esp_engine \<Rightarrow> bool \<times> esp_engine" where
  "esp_headers_loop e =
     (if available (esp_client e) = 0 then (False, e)
      else case readStringUntil LF (esp_client e) of
             (raw, s) \<Rightarrow>
               if length (trim raw) = 0
               then (True, e\<lparr>esp_client := s, esp_status := esp_status_of (trim raw) (esp_status e),
                              esp_state := READ_BODY\<rparr>)
               else esp_headers_loop
                      (e\<lparr>esp_client := s,
                         esp_status := esp_status_of (trim raw) (esp_status e)\<rparr>))"
  by pat_completeness auto

lemma readStringUntil_length:
  "readStringUntil t s = (ln, s') \<Longrightarrow> rx s \<noteq> [] \<Longrightarrow> length (rx s') < length (rx s)"
  by (auto simp: readStringUntil_def Let_def)

termination esp_headers_loop
  apply (relation "measure (\<lambda>e. length (rx (esp_client e)))")
   apply simp
  apply (auto simp: available_def dest!: readStringUntil_length[OF sym])
  done

declare esp_headers_loop.simps [simp del]

function esp_body_loop :: "esp_engine \<Rightarrow> esp_engine" where
  "esp_body_loop e =
     (if available (esp_client e) = 0 then e
      else case read_into 512 (esp_client e) of
             (buf, s) \<Rightarrow>
               esp_body_loop
                 (if 0 < length buf then esp_onBodyChunk buf (e\<lparr>esp_client := s\<rparr>)
                  else e\<lparr>esp_client := s\<rparr>))"
  by pat_completeness auto

termination esp_body_loop
  apply (relation "measure (\<lambda>e. length (rx (esp_client e)))")
   apply simp
  apply (auto simp: available_def read_into_def esp_onBodyChunk_def)
  done

declare esp_body_loop.simps [simp del]

definition esp_poll :: "32 word \<Rightarrow> esp_engine \<Rightarrow> esp_engine" where
  "esp_poll now e =
     (if esp_state e = IDLE \<or> esp_state e = DONE \<or> esp_state e = ERROR then e
      else if esp_timeoutMs e < now - esp_startMs e then esp_fail ''timeout'' e
      else case esp_state e of
             CONNECT \<Rightarrow>
               (if \<not> connected (esp_client e)
                then (case connect (esp_client e) of
                        (False, s) \<Rightarrow> esp_fail ''connect failed'' (e\<lparr>esp_client := s\<rparr>)
                      | (True, s) \<Rightarrow> e\<lparr>esp_client := s, esp_state := SEND\<rparr>)
                else e\<lparr>esp_state := SEND\<rparr>)
           | SEND \<Rightarrow>
               (case print (esp_request e) (esp_client e) of
                  (written, s) \<Rightarrow>
                    if written = 0 then esp_fail ''send failed'' (e\<lparr>esp_client := s\<rparr>)
                    else e\<lparr>esp_client := s, esp_state := READ_HEADERS\<rparr>)
           | READ_HEADERS \<Rightarrow>
               (case esp_headers_loop e of
                  (True, e1) \<Rightarrow> e1
                | (False, e1) \<Rightarrow>
                    if \<not> connected (esp_client e1) \<and> available (esp_client e1) = 0
                    then esp_fail ''closed during headers'' e1
                    else e1)
           | READ_BODY \<Rightarrow>
               (let e1 = esp_body_loop e
                in if \<not> connected (esp_client e1) \<and> available (esp_client e1) = 0
                   then e1\<lparr>esp_client := stop_stream (esp_client e1), esp_state := DONE\<rparr>
                   else e1)
           | _ \<Rightarrow> e)"

section \<open>Objects as constructed\<close>

text \<open>
  The objects with the member initialisers of the class declarations, on a stream that
  is not connected.
\<close>

definition new_stream :: stream where
  "new_stream = \<lparr>connected = False, rx = [], tx = [], connect_ok = True, tx_room = 0\<rparr>"

definition new_engine :: engine where
  "new_engine =
     \<lparr>client = new_stream, opt = default_Options, reqMethod = M_GET, state = IDLE,
      host = [], path = [], port = 443, caPem = None, hasCa = False, nowEpoch = 0,
      hasTime = False, req = [], line = [], err = [], body = [], bodyOverflow = False,
      httpStatus = -1, headerBytes = 0, contentLength = -1, chunked = False,
      seenHeaderEnd = False, t0 = 0, chunkState = CHUNK_SIZE, chunkLine = [],
      chunkRemaining = 0\<rparr>"

definition new_esp_engine :: esp_engine where
  "new_esp_engine =
     \<lparr>esp_client = new_stream, esp_method = M_GET, esp_state = IDLE, esp_host = [],
      esp_path = [], esp_port = 443, esp_request = [], esp_body = [], esp_err = [],
      esp_status = -1, esp_startMs = 0, esp_timeoutMs = 15000, esp_useInsecure = True,
      esp_hasCACert = False, esp_caPem = None\<rparr>"

text \<open>
  An engine after \<open>setCACert\<close> and \<open>setUnixTime\<close>, and one that has begun a GET
  request, is in the state SEND and has a connected stream that accepts three bytes.
\<close>

definition ready_engine :: engine where
  "ready_engine = setUnixTime 1700000000 (setCACert (Some ''PEM'') new_engine)"

definition sending_engine :: engine where
  "sending_engine =
     (snd (beginGet ''h'' 443 ''/'' [] 0 ready_engine))
       \<lparr>client := new_stream\<lparr>connected := True, tx_room := 3\<rparr>, state := SEND\<rparr>"

text \<open>
  An engine reading a body that is not chunked: a Content-Length of 10 was parsed, two
  bytes are there and the stream is not connected.
\<close>

definition short_body_engine :: engine where
  "short_body_engine =
     new_engine\<lparr>state := READ_BODY, seenHeaderEnd := True, contentLength := 10,
       client := new_stream\<lparr>rx := ''ok''\<rparr>\<rparr>"

text \<open>
  An engine in the state READ_HEADERS on a connected stream that holds the given bytes.
\<close>

definition header_engine :: "string \<Rightarrow> engine" where
  "header_engine s =
     new_engine\<lparr>state := READ_HEADERS, client := new_stream\<lparr>connected := True, rx := s\<rparr>\<rparr>"

text \<open>
  The same engine after 4076 header bytes have been read, twenty bytes below the
  default cap of 4096.
\<close>

definition late_header_engine :: "string \<Rightarrow> engine" where
  "late_header_engine s = (header_engine s)\<lparr>headerBytes := 4076\<rparr>"

text \<open>
  A sequence of fragments delivered to the default sink: every caller of
  \<open>onBodyChunk\<close> stops at the first fragment that the sink refuses.
\<close>

fun feed :: "string list \<Rightarrow> engine \<Rightarrow> bool \<times> engine" where
  "feed [] e = (True, e)"
| "feed (f # fs) e =
     (case onBodyChunk f e of
        (False, e1) \<Rightarrow> (False, e1)
      | (True, e1) \<Rightarrow> feed fs e1)"

text \<open>
  The loop of the host application: before each poll the network acts on the stream
  (bytes arrive, the peer closes), and \<open>millis ()\<close> returns the time given.
\<close>

fun run :: "(32 word \<times> (stream \<Rightarrow> stream)) list \<Rightarrow> engine \<Rightarrow> engine" where
  "run [] e = e"
| "run ((now, net) # evs) e = run evs (poll now (e\<lparr>client := net (client e)\<rparr>))"

section \<open>Outcomes of a step\<close>

text \<open>
  Predicates for the proofs. A failed engine is in the state ERROR with its stream
  closed and a description recorded. A quiet step changes neither the error, the state
  nor the connection. The frames say what a loop, or a poll, leaves unchanged.
\<close>

definition failed :: "engine \<Rightarrow> bool" where
  "failed e \<longleftrightarrow> state e = ERROR \<and> \<not> connected (client e) \<and> rx (client e) = [] \<and> err e \<noteq> []"

definition quiet :: "engine \<Rightarrow> engine \<Rightarrow> bool" where
  "quiet e e' \<longleftrightarrow> err e' = err e \<and> state e' = state e \<and>
     connected (client e') = connected (client e)"

definition sink_frame :: "engine \<Rightarrow> engine \<Rightarrow> bool" where
  "sink_frame e e' \<longleftrightarrow> opt e' = opt e \<and>
     (\<not> keepBody (opt e) \<longrightarrow> body e' = body e \<and> bodyOverflow e' = bodyOverflow e)"

definition headers_frame :: "engine \<Rightarrow> engine \<Rightarrow> bool" where
  "headers_frame e e' \<longleftrightarrow>
     opt e' = opt e \<and> body e' = body e \<and> bodyOverflow e' = bodyOverflow e \<and>
     (failed e' \<and> (err e' = ''headers too large'' \<or> err e' = ''header line too long'') \<or>
      err e' = err e \<and> connected (client e') = connected (client e) \<and>
      (state e' = state e \<or> state e' = READ_BODY))"

definition poll_frame :: "engine \<Rightarrow> engine \<Rightarrow> bool" where
  "poll_frame e e' \<longleftrightarrow>
     sink_frame e e' \<and>
     (failed e' \<and> (err e' = ''body exceeded maxBodyBytes'' \<longrightarrow> keepBody (opt e)) \<or>
      err e' = err e \<and> (state e' = ERROR \<longrightarrow> state e = ERROR))"

definition esp_failed :: "esp_engine \<Rightarrow> bool" where
  "esp_failed e \<longleftrightarrow> esp_state e = ERROR \<and> \<not> connected (esp_client e) \<and>
     rx (esp_client e) = [] \<and> esp_err e \<noteq> []"

text \<open>
  What is left to read goes into the body accumulator without exceeding the cap.
\<close>

definition fits :: "engine \<Rightarrow> bool" where
  "fits e \<longleftrightarrow> rx (client e) = [] \<or>
     (keepBody (opt e) \<longrightarrow>
        length (body e) + length (rx (client e)) \<le> unat (maxBodyBytes (opt e)))"

section \<open>Chunked bodies on the wire\<close>













section \<open>The body sink\<close>

lemma onBodyChunk_reject:
  "keepBody (opt e) \<Longrightarrow> unat (maxBodyBytes (opt e)) < length (body e) + length f \<Longrightarrow>
   onBodyChunk f e = (False, e\<lparr>bodyOverflow := True\<rparr>)"
  by (simp add: onBodyChunk_def)

lemma onBodyChunk_accept:
  "keepBody (opt e) \<Longrightarrow> \<not> unat (maxBodyBytes (opt e)) < length (body e) + length f \<Longrightarrow>
   onBodyChunk f e = (True, e\<lparr>body := body e @ f\<rparr>)"
  by (simp add: onBodyChunk_def)

lemma onBodyChunk_stream_only: "\<not> keepBody (opt e) \<Longrightarrow> onBodyChunk f e = (True, e)"
  by (simp add: onBodyChunk_def)

text \<open>
  C2: with keep-body enabled and a body within the cap, after any sequence of fragments
  the accumulated body is still within the configured max body bytes. When every
  fragment is accepted the body has grown by exactly the fragments. Otherwise there is
  a first fragment whose append would exceed the cap: the sink keeps exactly the bytes
  accumulated before it, sets the overflow flag there, once, and signals abort; no
  other field changes.
\<close>

theorem sink_cap:
  assumes "keepBody (opt e)" and "length (body e) \<le> unat (maxBodyBytes (opt e))"
    and "feed frags e = (ok, e')"
  shows "length (body e') \<le> unat (maxBodyBytes (opt e)) \<and>
         (ok \<longrightarrow> e' = e\<lparr>body := body e @ concat frags\<rparr>) \<and>
         (\<not> ok \<longrightarrow> (\<exists>pre f post. frags = pre @ f # post \<and>
             unat (maxBodyBytes (opt e)) < length (body e) + length (concat pre) + length f \<and>
             e' = e\<lparr>body := body e @ concat pre, bodyOverflow := True\<rparr>))"
  using assms
proof (induction frags arbitrary: e)
  case Nil
  then show ?case by simp
next
  case (Cons f fs)
  let ?cap = "unat (maxBodyBytes (opt e))"
  show ?case
  proof (cases "?cap < length (body e) + length f")
    case True
    from Cons.prems(3) have e: "ok = False" "e' = e\<lparr>bodyOverflow := True\<rparr>"
      by (simp_all add: onBodyChunk_reject [OF Cons.prems(1) True])
    have "f # fs = [] @ f # fs \<and> ?cap < length (body e) + length (concat ([]::string list)) + length f \<and>
          e' = e\<lparr>body := body e @ concat [], bodyOverflow := True\<rparr>"
      using True e(2) by simp
    then have "\<exists>pre g post. f # fs = pre @ g # post \<and>
          ?cap < length (body e) + length (concat pre) + length g \<and>
          e' = e\<lparr>body := body e @ concat pre, bodyOverflow := True\<rparr>"
      by (intro exI)
    moreover have "length (body e') \<le> ?cap"
      using e(2) Cons.prems(2) by simp
    ultimately show ?thesis
      using e(1) by simp
  next
    case False
    let ?e1 = "e\<lparr>body := body e @ f\<rparr>"
    from Cons.prems(3) have f: "feed fs ?e1 = (ok, e')"
      by (simp add: onBodyChunk_accept [OF Cons.prems(1) False])
    have k: "keepBody (opt ?e1)"
      using Cons.prems(1) by simp
    have l: "length (body ?e1) \<le> unat (maxBodyBytes (opt ?e1))"
      using False by simp
    note ih = Cons.IH [OF k l f]
    have len: "length (body e') \<le> ?cap"
      using ih by simp
    have acc: "e' = e\<lparr>body := body e @ concat (f # fs)\<rparr>" if ok
      using ih that by simp
    have rej: "\<exists>pre g post. f # fs = pre @ g # post \<and>
             ?cap < length (body e) + length (concat pre) + length g \<and>
             e' = e\<lparr>body := body e @ concat pre, bodyOverflow := True\<rparr>" if "\<not> ok"
    proof -
      from ih that obtain pre g post where p:
        "fs = pre @ g # post"
        "unat (maxBodyBytes (opt ?e1)) < length (body ?e1) + length (concat pre) + length g"
        "e' = ?e1\<lparr>body := body ?e1 @ concat pre, bodyOverflow := True\<rparr>"
        by blast
      have "f # fs = (f # pre) @ g # post"
        using p(1) by simp
      moreover have "?cap < length (body e) + length (concat (f # pre)) + length g"
        using p(2) by simp
      moreover have "e' = e\<lparr>body := body e @ concat (f # pre), bodyOverflow := True\<rparr>"
        using p(3) by simp
      ultimately show ?thesis
        by (intro exI conjI)
    qed
    from len acc rej show ?thesis
      by blast
  qed
qed

theorem sink_cap_witness:
  "keepBody (opt (new_engine\<lparr>opt := default_Options\<lparr>maxBodyBytes := 4\<rparr>\<rparr>)) \<and>
   feed [''ab'', ''cde'', ''f''] (new_engine\<lparr>opt := default_Options\<lparr>maxBodyBytes := 4\<rparr>\<rparr>) =
     (False, new_engine\<lparr>opt := default_Options\<lparr>maxBodyBytes := 4\<rparr>,
                        body := ''ab'', bodyOverflow := True\<rparr>) \<and>
   length (body (new_engine\<lparr>opt := default_Options\<lparr>maxBodyBytes := 4\<rparr>,
                        body := ''ab'', bodyOverflow := True\<rparr>)) \<le> 4"
proof -
  let ?e = "new_engine\<lparr>opt := default_Options\<lparr>maxBodyBytes := 4\<rparr>\<rparr>"
  let ?e' = "new_engine\<lparr>opt := default_Options\<lparr>maxBodyBytes := 4\<rparr>,
                        body := ''ab'', bodyOverflow := True\<rparr>"
  have k: "keepBody (opt ?e)"
    by (simp add: default_Options_def)
  have l: "length (body ?e) \<le> unat (maxBodyBytes (opt ?e))"
    by (simp add: new_engine_def)
  have f: "feed [''ab'', ''cde'', ''f''] ?e = (False, ?e')"
    by (simp add: onBodyChunk_def new_engine_def default_Options_def)
  from sink_cap [OF k l f] have "length (body ?e') \<le> unat (maxBodyBytes (opt ?e))"
    by blast
  with k f show ?thesis
    by simp
qed

section \<open>The timeout\<close>

text \<open>
  C3: in the states CONNECT, SEND, READ_HEADERS and READ_BODY, when the time elapsed
  since the start of the request (the difference of the 32-bit millisecond counter to
  its value at the start) exceeds the overall timeout, a poll does nothing but fail
  with the timeout error: the state is ERROR and not DONE, and nothing is written to
  the stream. This holds for both classes.
\<close>

theorem poll_timeout:
  "(state e \<in> {CONNECT, SEND, READ_HEADERS, READ_BODY} \<and> timeoutMs (opt e) < now - t0 e \<longrightarrow>
      poll now e = fail ''timeout'' e \<and> state (poll now e) = ERROR \<and>
      err (poll now e) = ''timeout'' \<and> state (poll now e) \<noteq> DONE \<and>
      tx (client (poll now e)) = tx (client e)) \<and>
   (esp_state x \<in> {CONNECT, SEND, READ_HEADERS, READ_BODY} \<and>
      esp_timeoutMs x < now - esp_startMs x \<longrightarrow>
      esp_poll now x = esp_fail ''timeout'' x \<and> esp_state (esp_poll now x) = ERROR \<and>
      esp_err (esp_poll now x) = ''timeout'' \<and> esp_state (esp_poll now x) \<noteq> DONE \<and>
      tx (esp_client (esp_poll now x)) = tx (esp_client x))"
  by (auto simp: poll_def esp_poll_def fail_def esp_fail_def stop_stream_def)


theorem poll_timeout_witness:
  "poll 20000 (new_engine\<lparr>state := SEND\<rparr>) = fail ''timeout'' (new_engine\<lparr>state := SEND\<rparr>) \<and>
   esp_poll 20000 (new_esp_engine\<lparr>esp_state := READ_BODY\<rparr>) =
     esp_fail ''timeout'' (new_esp_engine\<lparr>esp_state := READ_BODY\<rparr>)"
  using poll_timeout [of "new_engine\<lparr>state := SEND\<rparr>" 20000
      "new_esp_engine\<lparr>esp_state := READ_BODY\<rparr>"]
  by (simp add: new_engine_def new_esp_engine_def default_Options_def)

section \<open>Evaluation and digits\<close>

lemmas char_eval = ord_def char_of_def bit_Suc_0_iff NUL_def CR_def LF_def CRLF_def
  isspace_def digit_val_def digit_char_def tolower_def

lemma ord_char_of: "ord (char_of (n::nat)) = n mod 256"
  by (simp add: ord_def)

lemma digit_val_digit_char:
  assumes "d < b" and "b \<le> 16"
  shows "digit_val b (digit_char d) = Some d"
proof -
  from assms have "d < 16" by simp
  then show ?thesis
    using assms by (auto simp: digit_val_def digit_char_def ord_char_of Let_def)
qed

lemma read_digits_to_digits:
  assumes "2 \<le> b" and "b \<le> 16"
  shows "read_digits b (to_digits b n @ r) a any =
         read_digits b r (a * b ^ length (to_digits b n) + n) True"
  using assms
proof (induction b n arbitrary: a any r rule: to_digits.induct)
  case (1 b n)
  show ?case
  proof (cases "n < b")
    case True
    with "1.prems" show ?thesis
      by (subst (1 2) to_digits.simps) (simp add: digit_val_digit_char)
  next
    case False
    with "1.prems" have nb: "\<not> (b < 2 \<or> n < b)" by simp
    have m: "n mod b < b" using "1.prems" by simp
    have eq: "to_digits b n = to_digits b (n div b) @ [digit_char (n mod b)]"
      using nb by (subst to_digits.simps) simp
    let ?k = "length (to_digits b (n div b))"
    have "read_digits b (to_digits b n @ r) a any =
          read_digits b (to_digits b (n div b) @ (digit_char (n mod b) # r)) a any"
      by (simp add: eq)
    also have "\<dots> = read_digits b (digit_char (n mod b) # r) (a * b ^ ?k + n div b) True"
      using nb "1.prems" "1.IH" by simp
    also have "\<dots> = read_digits b r ((a * b ^ ?k + n div b) * b + n mod b) True"
      using m "1.prems" by (simp add: digit_val_digit_char)
    also have "(a * b ^ ?k + n div b) * b + n mod b = a * b ^ length (to_digits b n) + n"
      by (simp add: eq algebra_simps)
    finally show ?thesis .
  qed
qed

lemma read_digits_digits10: "read_digits 10 (digits10 n) 0 False = (n, True)"
  using read_digits_to_digits [of 10 n "[]" 0 False] by (simp add: digits10_def)

lemma reset_flags: "hasCa (reset e) = hasCa e" "hasTime (reset e) = hasTime e"
  "req (reset e) = []" "client (reset e) = stop_stream (client e)"
  by (simp_all add: reset_def stop_def)

lemma reset_opt: "opt (reset e) = opt e"
  by (simp add: reset_def stop_def)

lemma ready_engine_flags: "hasCa ready_engine" "hasTime ready_engine"
  by (simp_all add: ready_engine_def setUnixTime_def setCACert_def c_str_def NUL_def)

section \<open>Request submission\<close>




text \<open>
  C9, as stated, fails on \<open>ESPAsyncHttpsClient\<close>: without any CA certificate its
  request submission proceeds to CONNECT.
\<close>

theorem esp_no_prerequisites_counterexample:
  "\<not> esp_hasCACert new_esp_engine \<and>
   esp_state (esp_beginGet ''h'' 443 ''/'' 0 new_esp_engine) = CONNECT"
  by (simp add: new_esp_engine_def esp_beginGet_def esp_beginRequest_def esp_reset_def Let_def)

text \<open>
  C9, amended: the request submission of \<open>AsyncHttpsClient\<close> returns false whenever
  the CA certificate or the time has not been set, ends in ERROR with the description
  of the missing prerequisite, builds no request, leaves the stream closed and writes
  nothing; when both are set it returns true in the state CONNECT with a request
  built. The request submission of \<open>ESPAsyncHttpsClient\<close> has no prerequisite check
  and always proceeds to CONNECT.
\<close>

theorem beginRequest_prerequisites:
  "(\<not> hasCa e \<or> \<not> hasTime e \<longrightarrow>
      beginRequest m h p pth bdy ct extra now e =
        (False, fail (if \<not> hasCa e then ''TLS CA cert not set (setCACert)''
                      else ''System time not set (setUnixTime / SNTP)'') (reset e)) \<and>
      state (snd (beginRequest m h p pth bdy ct extra now e)) = ERROR \<and>
      req (snd (beginRequest m h p pth bdy ct extra now e)) = [] \<and>
      \<not> connected (client (snd (beginRequest m h p pth bdy ct extra now e))) \<and>
      tx (client (snd (beginRequest m h p pth bdy ct extra now e))) = tx (client e)) \<and>
   (hasCa e \<and> hasTime e \<longrightarrow>
      fst (beginRequest m h p pth bdy ct extra now e) \<and>
      state (snd (beginRequest m h p pth bdy ct extra now e)) = CONNECT \<and>
      req (snd (beginRequest m h p pth bdy ct extra now e)) \<noteq> []) \<and>
   esp_state (esp_beginRequest m h p pth bdy ct now x) = CONNECT"
  by (simp add: beginRequest_def Let_def reset_flags fail_def stop_stream_def
      request_head_def esp_beginRequest_def)

theorem beginRequest_prerequisites_witness:
  "\<not> hasCa new_engine \<and>
   beginRequest M_GET ''h'' 443 ''/'' [] [] [] 0 new_engine =
     (False, fail ''TLS CA cert not set (setCACert)'' (reset new_engine)) \<and>
   hasCa ready_engine \<and> hasTime ready_engine \<and>
   state (snd (beginRequest M_GET ''h'' 443 ''/'' [] [] [] 0 ready_engine)) = CONNECT"
  using beginRequest_prerequisites [of new_engine M_GET "''h''" 443 "''/''" "[]" "[]" "[]" 0]
    beginRequest_prerequisites [of ready_engine M_GET "''h''" 443 "''/''" "[]" "[]" "[]" 0]
  by (simp add: ready_engine_flags) (simp add: new_engine_def)


section \<open>Sending\<close>

text \<open>
  C4, as stated, fails: the stream is connected and accepts three bytes of the request;
  the engine is in READ_HEADERS after the poll, and only \<open>GET\<close> has been written.
\<close>

theorem partial_write_counterexample:
  "state sending_engine = SEND \<and> connected (client sending_engine) \<and>
   state (poll 0 sending_engine) = READ_HEADERS \<and>
   tx (client (poll 0 sending_engine)) = ''GET'' \<and>
   req sending_engine =
     ''GET / HTTP/1.1'' @ CRLF @ ''Host: h'' @ CRLF @ ''User-Agent: esp-secure/1.0'' @ CRLF @
     ''Accept: */*'' @ CRLF @ ''Connection: close'' @ CRLF @ CRLF"
proof -
  have r: "req sending_engine =
     ''GET / HTTP/1.1'' @ CRLF @ ''Host: h'' @ CRLF @ ''User-Agent: esp-secure/1.0'' @ CRLF @
     ''Accept: */*'' @ CRLF @ ''Connection: close'' @ CRLF @ CRLF"
    by (simp add: sending_engine_def beginGet_def beginRequest_def Let_def reset_flags
        ready_engine_flags request_head_def)
  have o: "opt ready_engine = default_Options"
    by (simp add: ready_engine_def setUnixTime_def setCACert_def new_engine_def)
  have s: "state sending_engine = SEND" "connected (client sending_engine)"
    "tx_room (client sending_engine) = 3" "tx (client sending_engine) = []"
    "t0 sending_engine = 0" "timeoutMs (opt sending_engine) = 15000"
    by (simp_all add: sending_engine_def new_stream_def beginGet_def beginRequest_def Let_def
        reset_flags ready_engine_flags reset_opt o default_Options_def)
  have p: "poll 0 sending_engine = stepSend sending_engine"
    by (simp add: poll_def s)
  have "state (stepSend sending_engine) = READ_HEADERS \<and>
        tx (client (stepSend sending_engine)) = ''GET''"
    by (simp add: stepSend_def print_def s r Let_def CRLF_def)
  with p r s show ?thesis
    by simp
qed

text \<open>
  C4, amended: in the state SEND, \<open>AsyncHttpsClient\<close> fails with the description of a
  closed socket when the stream is not connected; when it is connected the request is
  written once, the engine fails with the send failure exactly when the write reports
  zero bytes, and with any other count it goes to READ_HEADERS, the stream having
  taken as many bytes of the request as it accepted. \<open>ESPAsyncHttpsClient\<close> has the
  same rule for the count and no check that the stream is connected.
\<close>

theorem stepSend_cases:
  "(\<not> connected (client e) \<longrightarrow> stepSend e = fail ''socket closed before send'' e) \<and>
   (connected (client e) \<and> min (length (req e)) (tx_room (client e)) = 0 \<longrightarrow>
      stepSend e = fail ''send failed'' e) \<and>
   (connected (client e) \<and> 0 < min (length (req e)) (tx_room (client e)) \<longrightarrow>
      state (stepSend e) = READ_HEADERS \<and> err (stepSend e) = err e \<and>
      tx (client (stepSend e)) = tx (client e) @ take (tx_room (client e)) (req e)) \<and>
   (esp_state x = SEND \<and> \<not> esp_timeoutMs x < now - esp_startMs x \<longrightarrow>
      (min (length (esp_request x)) (tx_room (esp_client x)) = 0 \<longrightarrow>
         esp_poll now x = esp_fail ''send failed'' x) \<and>
      (0 < min (length (esp_request x)) (tx_room (esp_client x)) \<longrightarrow>
         esp_state (esp_poll now x) = READ_HEADERS \<and>
         tx (esp_client (esp_poll now x)) =
           tx (esp_client x) @ take (tx_room (esp_client x)) (esp_request x)))"
proof (intro conjI impI)
  assume "\<not> connected (client e)"
  then show "stepSend e = fail ''socket closed before send'' e"
    by (simp add: stepSend_def)
next
  assume a: "connected (client e) \<and> min (length (req e)) (tx_room (client e)) = 0"
  then have "print (req e) (client e) = (0, client e)"
    by (simp add: print_def Let_def)
  with a show "stepSend e = fail ''send failed'' e"
    by (simp add: stepSend_def)
next
  assume a: "connected (client e) \<and> 0 < min (length (req e)) (tx_room (client e))"
  obtain w s where p: "print (req e) (client e) = (w, s)"
    by (cases "print (req e) (client e)")
  with a have w: "0 < w" and s: "tx s = tx (client e) @ take (tx_room (client e)) (req e)"
    by (auto simp: print_def Let_def min_def)
  from a p w show "state (stepSend e) = READ_HEADERS"
    by (simp add: stepSend_def)
  from a p w show "err (stepSend e) = err e"
    by (simp add: stepSend_def)
  from a p w s show "tx (client (stepSend e)) = tx (client e) @ take (tx_room (client e)) (req e)"
    by (simp add: stepSend_def)
next
  assume a: "esp_state x = SEND \<and> \<not> esp_timeoutMs x < now - esp_startMs x"
    and z: "min (length (esp_request x)) (tx_room (esp_client x)) = 0"
  from z have "print (esp_request x) (esp_client x) = (0, esp_client x)"
    by (simp add: print_def Let_def)
  with a show "esp_poll now x = esp_fail ''send failed'' x"
    by (simp add: esp_poll_def)
next
  assume a: "esp_state x = SEND \<and> \<not> esp_timeoutMs x < now - esp_startMs x"
    and z: "0 < min (length (esp_request x)) (tx_room (esp_client x))"
  obtain w s where p: "print (esp_request x) (esp_client x) = (w, s)"
    by (cases "print (esp_request x) (esp_client x)")
  with z have w: "0 < w"
    and s: "tx s = tx (esp_client x) @ take (tx_room (esp_client x)) (esp_request x)"
    by (auto simp: print_def Let_def min_def)
  from a p w show "esp_state (esp_poll now x) = READ_HEADERS"
    by (simp add: esp_poll_def)
  from a p w s show "tx (esp_client (esp_poll now x)) =
           tx (esp_client x) @ take (tx_room (esp_client x)) (esp_request x)"
    by (simp add: esp_poll_def)
qed


theorem stepSend_cases_witness:
  "connected (client sending_engine) \<and>
   0 < min (length (req sending_engine)) (tx_room (client sending_engine)) \<and>
   state (stepSend sending_engine) = READ_HEADERS \<and>
   \<not> connected (client new_engine) \<and>
   stepSend new_engine = fail ''socket closed before send'' new_engine"
proof -
  have c: "connected (client sending_engine)" "tx_room (client sending_engine) = 3"
    by (simp_all add: sending_engine_def new_stream_def)
  have r: "0 < length (req sending_engine)"
    by (simp add: sending_engine_def beginGet_def beginRequest_def Let_def reset_flags
        ready_engine_flags request_head_def)
  have n: "\<not> connected (client new_engine)"
    by (simp add: new_engine_def new_stream_def)
  from stepSend_cases [of sending_engine new_esp_engine 0] c r
  have "state (stepSend sending_engine) = READ_HEADERS"
    by simp
  moreover from stepSend_cases [of new_engine new_esp_engine 0] n
  have "stepSend new_engine = fail ''socket closed before send'' new_engine"
    by simp
  ultimately show ?thesis
    using c r n by simp
qed

section \<open>What the loops leave unchanged\<close>

lemma failed_fail: "msg \<noteq> [] \<Longrightarrow> failed (fail msg e)"
  by (simp add: failed_def fail_def stop_stream_def)

lemma fail_fields: "opt (fail msg e) = opt e" "body (fail msg e) = body e"
  "bodyOverflow (fail msg e) = bodyOverflow e" "err (fail msg e) = msg"
  "state (fail msg e) = ERROR"
  by (simp_all add: fail_def)

lemma sink_failure_fields: "opt (sink_failure e) = opt e" "body (sink_failure e) = body e"
  "bodyOverflow (sink_failure e) = bodyOverflow e" "failed (sink_failure e)"
  "err (sink_failure e) = (if bodyOverflow e then ''body exceeded maxBodyBytes'' else ''body handler aborted'')"
  by (simp_all add: sink_failure_def fail_fields failed_fail)

lemma onBodyChunk_fields:
  assumes "onBodyChunk d e = (ok, e')"
  shows "opt e' = opt e" "state e' = state e" "err e' = err e" "client e' = client e"
    "\<not> keepBody (opt e) \<Longrightarrow> ok \<and> body e' = body e \<and> bodyOverflow e' = bodyOverflow e"
  using assms by (auto simp: onBodyChunk_def split: if_splits)

lemma read_into_connected: "read_into w s = (buf, s') \<Longrightarrow> connected s' = connected s"
  by (auto simp: read_into_def)

lemma read1_connected: "read1 s = (c, s') \<Longrightarrow> connected s' = connected s"
  by (auto simp: read1_def split: list.splits)

lemma body_loop_frame:
  "body_loop e = (ret, e') \<Longrightarrow>
   sink_frame e e' \<and>
   (if ret then failed e' \<and> keepBody (opt e) else quiet e e')"
proof (induction e arbitrary: ret e' rule: body_loop.induct)
  case (1 e)
  show ?case
  proof (cases "available (client e) = 0")
    case True
    with "1.prems" show ?thesis
      by (subst (asm) body_loop.simps) (auto simp: sink_frame_def quiet_def)
  next
    case False
    obtain buf s where r: "read_into (bufSz e) (client e) = (buf, s)"
      by (cases "read_into (bufSz e) (client e)")
    show ?thesis
    proof (cases "length buf = 0")
      case True
      with "1.prems" False r show ?thesis
        by (subst (asm) body_loop.simps)
          (auto simp: sink_frame_def quiet_def dest: read_into_connected)
    next
      case nz: False
      obtain ok e1 where o: "onBodyChunk buf (e\<lparr>client := s\<rparr>) = (ok, e1)"
        by (cases "onBodyChunk buf (e\<lparr>client := s\<rparr>)")
      note f = onBodyChunk_fields [OF o]
      show ?thesis
      proof (cases ok)
        case False
        with "1.prems" \<open>available (client e) \<noteq> 0\<close> r nz o
        have "ret" "e' = sink_failure e1"
          by (subst (asm) body_loop.simps, simp)+
        with f False show ?thesis
          by (auto simp: sink_frame_def sink_failure_fields)
      next
        case True
        with "1.prems" \<open>available (client e) \<noteq> 0\<close> r nz o
        have "body_loop e1 = (ret, e')"
          by (subst (asm) body_loop.simps) simp
        from "1.IH" [OF \<open>available (client e) \<noteq> 0\<close> r [symmetric] nz o [symmetric] eqTrueI [OF True] this]
        show ?thesis
          using f True read_into_connected [OF r]
          by (auto simp: sink_frame_def quiet_def split: if_splits)
      qed
    qed
  qed
qed


lemma bulk_loop_frame:
  "bulk_loop e = (ret, e') \<Longrightarrow>
   sink_frame e e' \<and>
   (if ret then failed e' \<and> keepBody (opt e) else quiet e e')"
proof (induction e arbitrary: ret e' rule: bulk_loop.induct)
  case (1 e)
  show ?case
  proof (cases "0 < chunkRemaining e \<and> available (client e) \<noteq> 0")
    case False
    with "1.prems" show ?thesis
      by (auto simp: bulk_loop_stop sink_frame_def quiet_def)
  next
    case c: True
    obtain buf s where r: "read_into (min (chunkRemaining e) (bufSz e)) (client e) = (buf, s)"
      by (cases "read_into (min (chunkRemaining e) (bufSz e)) (client e)")
    note step = bulk_loop_step [OF conjunct1 [OF c] conjunct2 [OF c] r]
    show ?thesis
    proof (cases "length buf = 0")
      case True
      with "1.prems" step show ?thesis
        using read_into_connected [OF r] by (auto simp: sink_frame_def quiet_def)
    next
      case nz: False
      obtain ok e1 where o: "onBodyChunk buf (e\<lparr>client := s\<rparr>) = (ok, e1)"
        by (cases "onBodyChunk buf (e\<lparr>client := s\<rparr>)")
      note f = onBodyChunk_fields [OF o]
      show ?thesis
      proof (cases ok)
        case False
        with "1.prems" step nz o have "ret" "e' = sink_failure e1"
          by simp_all
        with f False show ?thesis
          by (auto simp: sink_frame_def sink_failure_fields)
      next
        case True
        with "1.prems" step nz o
        have "bulk_loop (e1\<lparr>chunkRemaining := chunkRemaining e1 - length buf\<rparr>) = (ret, e')"
          by simp
        from "1.IH" [OF c r [symmetric] nz o [symmetric] eqTrueI [OF True] this]
        show ?thesis
          using f True read_into_connected [OF r]
          by (auto simp: sink_frame_def quiet_def split: if_splits)
      qed
    qed
  qed
qed

lemma chunk_size_line_fields:
  "opt (chunk_size_line e) = opt e" "body (chunk_size_line e) = body e"
  "bodyOverflow (chunk_size_line e) = bodyOverflow e" "err (chunk_size_line e) = err e"
  "state (chunk_size_line e) = state e" "client (chunk_size_line e) = client e"
  by (simp_all add: chunk_size_line_def Let_def)

lemma chunked_loop_empty: "rx (client e) = [] \<Longrightarrow> chunked_loop e = (False, e)"
  by (subst chunked_loop.simps) (simp add: available_def)

lemma chunked_loop_step:
  assumes "rx (client e) = ch # rest"
  shows "chunked_loop e =
     (case chunkState e of
        CHUNK_SIZE \<Rightarrow>
          if ch = LF then chunked_loop (chunk_size_line (e\<lparr>client := (client e)\<lparr>rx := rest\<rparr>\<rparr>))
          else if 64 < length (chunkLine e @ [ch])
            then (True, fail ''chunk size line too long''
                          (e\<lparr>client := (client e)\<lparr>rx := rest\<rparr>, chunkLine := chunkLine e @ [ch]\<rparr>))
          else chunked_loop (e\<lparr>client := (client e)\<lparr>rx := rest\<rparr>, chunkLine := chunkLine e @ [ch]\<rparr>)
      | CHUNK_DATA \<Rightarrow>
          (case onBodyChunk [ch] (e\<lparr>client := (client e)\<lparr>rx := rest\<rparr>\<rparr>) of
             (False, e1) \<Rightarrow> (True, sink_failure e1)
           | (True, e1) \<Rightarrow>
               (case bulk_loop
                       (e1\<lparr>chunkRemaining :=
                             (if chunkRemaining e1 = 0 then 2 ^ 32 - 1
                              else chunkRemaining e1 - 1)\<rparr>) of
                  (True, e2) \<Rightarrow> (True, e2)
                | (False, e2) \<Rightarrow>
                    chunked_loop
                      (if chunkRemaining e2 = 0 then e2\<lparr>chunkState := CHUNK_CRLF\<rparr>
                       else e2)))
      | CHUNK_CRLF \<Rightarrow>
          chunked_loop
            (if ch = LF then e\<lparr>client := (client e)\<lparr>rx := rest\<rparr>, chunkState := CHUNK_SIZE\<rparr>
             else e\<lparr>client := (client e)\<lparr>rx := rest\<rparr>\<rparr>)
      | CHUNK_DONE \<Rightarrow> chunked_loop (e\<lparr>client := (client e)\<lparr>rx := rest\<rparr>\<rparr>))"
  by (subst chunked_loop.simps) (simp add: available_def read1_def assms)

lemma chunked_loop_frame:
  "chunked_loop e = (ret, e') \<Longrightarrow>
   sink_frame e e' \<and>
   (if ret then failed e' \<and> (keepBody (opt e) \<or> err e' = ''chunk size line too long'')
    else quiet e e')"
proof (induction "length (rx (client e))" arbitrary: e ret e' rule: less_induct)
  case less
  show ?case
  proof (cases "rx (client e)")
    case Nil
    with less.prems show ?thesis
      by (simp add: chunked_loop_empty sink_frame_def quiet_def)
  next
    case (Cons ch rest)
    let ?s = "(client e)\<lparr>rx := rest\<rparr>"
    note step = chunked_loop_step [OF Cons]
    have ih: "sink_frame e2 e' \<and>
        (if ret then failed e' \<and> (keepBody (opt e2) \<or> err e' = ''chunk size line too long'')
         else quiet e2 e')"
      if "length (rx (client e2)) \<le> length rest" "chunked_loop e2 = (ret, e')" for e2
      using less.hyps [of e2 ret e'] that Cons by simp
    show ?thesis
    proof (cases "chunkState e")
      case CHUNK_SIZE
      show ?thesis
      proof (cases "ch = LF")
        case True
        with step CHUNK_SIZE less.prems
        have "chunked_loop (chunk_size_line (e\<lparr>client := ?s\<rparr>)) = (ret, e')"
          by simp
        from ih [OF _ this] show ?thesis
          by (simp add: chunk_size_line_fields sink_frame_def quiet_def split: if_splits)
      next
        case nl: False
        show ?thesis
        proof (cases "64 < length (chunkLine e @ [ch])")
          case True
          with step CHUNK_SIZE less.prems nl
          have "ret" "e' = fail ''chunk size line too long''
                  (e\<lparr>client := ?s, chunkLine := chunkLine e @ [ch]\<rparr>)"
            by simp_all
          then show ?thesis
            by (simp add: sink_frame_def fail_fields failed_fail)
        next
          case False
          with step CHUNK_SIZE less.prems nl
          have "chunked_loop (e\<lparr>client := ?s, chunkLine := chunkLine e @ [ch]\<rparr>) = (ret, e')"
            by simp
          from ih [OF _ this] show ?thesis
            by (simp add: sink_frame_def quiet_def split: if_splits)
        qed
      qed
    next
      case CHUNK_DATA
      obtain ok e1 where o: "onBodyChunk [ch] (e\<lparr>client := ?s\<rparr>) = (ok, e1)"
        by (cases "onBodyChunk [ch] (e\<lparr>client := ?s\<rparr>)")
      note f = onBodyChunk_fields [OF o]
      show ?thesis
      proof (cases ok)
        case False
        with step CHUNK_DATA less.prems o have "ret" "e' = sink_failure e1"
          by simp_all
        with f False show ?thesis
          by (auto simp: sink_frame_def sink_failure_fields)
      next
        case True
        let ?e1 = "e1\<lparr>chunkRemaining :=
                       (if chunkRemaining e1 = 0 then 2 ^ 32 - 1 else chunkRemaining e1 - 1)\<rparr>"
        obtain r2 e2 where b: "bulk_loop ?e1 = (r2, e2)"
          by (cases "bulk_loop ?e1")
        note bf = bulk_loop_frame [OF b]
        have brx: "length (rx (client e2)) \<le> length rest"
          using bulk_loop_rx [OF b] f(4) by simp
        show ?thesis
        proof (cases r2)
          case r2: True
          with step CHUNK_DATA less.prems o True b have "ret" "e' = e2"
            by simp_all
          with bf r2 f show ?thesis
            by (auto simp: sink_frame_def)
        next
          case r2: False
          let ?e3 = "if chunkRemaining e2 = 0 then e2\<lparr>chunkState := CHUNK_CRLF\<rparr> else e2"
          from step CHUNK_DATA less.prems o True b r2
          have c: "chunked_loop ?e3 = (ret, e')"
            by simp
          have "length (rx (client ?e3)) \<le> length rest"
            using brx by simp
          from ih [OF this c] bf r2 f show ?thesis
            by (auto simp: sink_frame_def quiet_def split: if_splits)
        qed
      qed
    next
      case CHUNK_CRLF
      let ?e2 = "if ch = LF then e\<lparr>client := ?s, chunkState := CHUNK_SIZE\<rparr> else e\<lparr>client := ?s\<rparr>"
      from step CHUNK_CRLF less.prems have c: "chunked_loop ?e2 = (ret, e')"
        by simp
      have "length (rx (client ?e2)) \<le> length rest"
        by simp
      from ih [OF this c] show ?thesis
        by (auto simp: sink_frame_def quiet_def split: if_splits)
    next
      case CHUNK_DONE
      with step less.prems have c: "chunked_loop (e\<lparr>client := ?s\<rparr>) = (ret, e')"
        by simp
      from ih [OF _ c] show ?thesis
        by (auto simp: sink_frame_def quiet_def split: if_splits)
    qed
  qed
qed


lemma headers_loop_empty: "rx (client e) = [] \<Longrightarrow> headers_loop e = e"
  by (subst headers_loop.simps) (simp add: available_def)

lemma headers_loop_step:
  assumes "rx (client e) = ch # rest"
  shows "headers_loop e =
     (let e1 = e\<lparr>client := (client e)\<lparr>rx := rest\<rparr>,
                  headerBytes := (headerBytes e + 1) mod 2 ^ 32\<rparr>
      in if unat (maxHeaderBytes (opt e1)) < headerBytes e1
           then fail ''headers too large'' e1
         else
           let e2 = e1\<lparr>line := line e1 @ [ch]\<rparr>
           in if 512 < length (line e2) then fail ''header line too long'' e2
              else if ch = LF
                then (case header_line e2 of
                        (True, e3) \<Rightarrow> e3
                      | (False, e3) \<Rightarrow> headers_loop e3)
              else headers_loop e2)"
  by (subst headers_loop.simps) (simp add: available_def read1_def assms)

lemma header_line_fields:
  assumes "header_line e = (b, e')"
  shows "opt e' = opt e" "body e' = body e" "bodyOverflow e' = bodyOverflow e"
    "err e' = err e" "client e' = client e" "state e' = (if b then READ_BODY else state e)"
  using assms by (auto simp: header_line_def Let_def split: if_splits)

lemma headers_loop_frame: "headers_frame e (headers_loop e)"
proof (induction "length (rx (client e))" arbitrary: e rule: less_induct)
  case less
  show ?case
  proof (cases "rx (client e)")
    case Nil
    then show ?thesis
      by (simp add: headers_loop_empty headers_frame_def)
  next
    case (Cons ch rest)
    let ?e1 = "e\<lparr>client := (client e)\<lparr>rx := rest\<rparr>,
                  headerBytes := (headerBytes e + 1) mod 2 ^ 32\<rparr>"
    let ?e2 = "?e1\<lparr>line := line ?e1 @ [ch]\<rparr>"
    note step = headers_loop_step [OF Cons]
    have ih: "headers_frame e2 (headers_loop e2)" if "length (rx (client e2)) \<le> length rest" for e2
      using less.hyps [of e2] that Cons by simp
    show ?thesis
    proof (cases "unat (maxHeaderBytes (opt ?e1)) < headerBytes ?e1")
      case True
      then have "headers_loop e = fail ''headers too large'' ?e1"
        using step by (simp add: Let_def)
      then show ?thesis
        by (simp add: headers_frame_def fail_fields failed_fail)
    next
      case c1: False
      show ?thesis
      proof (cases "512 < length (line ?e2)")
        case True
        with c1 have "headers_loop e = fail ''header line too long'' ?e2"
          using step by (simp add: Let_def)
        then show ?thesis
          by (simp add: headers_frame_def fail_fields failed_fail)
      next
        case c2: False
        show ?thesis
        proof (cases "ch = LF")
          case False
          with c1 c2 have h: "headers_loop e = headers_loop ?e2"
            using step by (simp add: Let_def)
          have "headers_frame ?e2 (headers_loop ?e2)"
            by (rule ih) simp
          then show ?thesis
            by (simp add: h headers_frame_def)
        next
          case True
          obtain b e3 where hl: "header_line ?e2 = (b, e3)"
            by (cases "header_line ?e2")
          note f = header_line_fields [OF hl]
          show ?thesis
          proof (cases b)
            case b: True
            with c1 c2 True hl have "headers_loop e = e3"
              using step by (simp add: Let_def)
            with f b show ?thesis
              by (simp add: headers_frame_def)
          next
            case b: False
            with c1 c2 True hl have h: "headers_loop e = headers_loop e3"
              using step by (simp add: Let_def)
            have "headers_frame e3 (headers_loop e3)"
              using f(5) by (intro ih) simp
            with f b show ?thesis
              by (simp add: h headers_frame_def)
          qed
        qed
      qed
    qed
  qed
qed


lemma poll_frame_refl: "poll_frame e e"
  by (simp add: poll_frame_def sink_frame_def)

lemma poll_frame_fail:
  "msg \<noteq> [] \<Longrightarrow> msg \<noteq> ''body exceeded maxBodyBytes'' \<Longrightarrow> opt e1 = opt e \<Longrightarrow>
   body e1 = body e \<Longrightarrow> bodyOverflow e1 = bodyOverflow e \<Longrightarrow> poll_frame e (fail msg e1)"
  by (simp add: poll_frame_def sink_frame_def fail_fields failed_fail)

lemma stepConnect_frame: "poll_frame e (stepConnect e)"
proof (cases "connected (client e)")
  case True
  then show ?thesis
    by (simp add: stepConnect_def poll_frame_def sink_frame_def)
next
  case False
  obtain ok s where c: "connect (client e) = (ok, s)"
    by (cases "connect (client e)")
  show ?thesis
  proof (cases ok)
    case True
    with False c show ?thesis
      by (simp add: stepConnect_def poll_frame_def sink_frame_def)
  next
    case f: False
    with False c have "stepConnect e = fail ''connect/TLS failed'' (e\<lparr>client := s\<rparr>)"
      by (simp add: stepConnect_def)
    then show ?thesis
      by (simp add: poll_frame_fail)
  qed
qed

lemma stepSend_frame: "poll_frame e (stepSend e)"
proof (cases "connected (client e)")
  case False
  then show ?thesis
    by (simp add: stepSend_def poll_frame_fail)
next
  case True
  obtain w s where p: "print (req e) (client e) = (w, s)"
    by (cases "print (req e) (client e)")
  show ?thesis
  proof (cases "w = 0")
    case False
    with True p show ?thesis
      by (simp add: stepSend_def poll_frame_def sink_frame_def)
  next
    case z: True
    with True p have "stepSend e = fail ''send failed'' (e\<lparr>client := s\<rparr>)"
      by (simp add: stepSend_def)
    then show ?thesis
      by (simp add: poll_frame_fail)
  qed
qed

lemma stepReadHeaders_frame:
  assumes "state e \<noteq> ERROR"
  shows "poll_frame e (stepReadHeaders e)"
proof (cases "\<not> connected (client e) \<and> available (client e) = 0")
  case True
  then show ?thesis
    by (simp add: stepReadHeaders_def poll_frame_fail)
next
  case False
  then have "stepReadHeaders e = headers_loop e"
    by (auto simp: stepReadHeaders_def)
  with headers_loop_frame [of e] assms show ?thesis
    by (auto simp: poll_frame_def sink_frame_def headers_frame_def)
qed

lemma stepReadChunkedBody_frame:
  assumes "state e \<noteq> ERROR"
  shows "poll_frame e (stepReadChunkedBody e)"
proof -
  obtain ret e1 where c: "chunked_loop e = (ret, e1)"
    by (cases "chunked_loop e")
  note f = chunked_loop_frame [OF c]
  show ?thesis
  proof (cases ret)
    case True
    with c have "stepReadChunkedBody e = e1"
      by (simp add: stepReadChunkedBody_def)
    with f True show ?thesis
      by (auto simp: poll_frame_def)
  next
    case False
    with f assms have q: "sink_frame e e1" "quiet e e1"
      by simp_all
    with c False assms show ?thesis
      by (auto simp: stepReadChunkedBody_def poll_frame_def sink_frame_def quiet_def)
  qed
qed

lemma stepReadBody_frame:
  assumes "state e \<noteq> ERROR"
  shows "poll_frame e (stepReadBody e)"
proof (cases "\<not> seenHeaderEnd e \<or> chunked e")
  case True
  with assms show ?thesis
    by (auto simp: stepReadBody_def poll_frame_refl stepReadChunkedBody_frame)
next
  case nc: False
  obtain ret e1 where c: "body_loop e = (ret, e1)"
    by (cases "body_loop e")
  note f = body_loop_frame [OF c]
  show ?thesis
  proof (cases ret)
    case True
    with c nc have "stepReadBody e = e1"
      by (simp add: stepReadBody_def)
    with f True show ?thesis
      by (auto simp: poll_frame_def)
  next
    case False
    with f assms have q: "sink_frame e e1" "quiet e e1"
      by simp_all
    with c False assms nc show ?thesis
      by (auto simp: stepReadBody_def poll_frame_def sink_frame_def quiet_def)
  qed
qed

lemma poll_poll_frame: "poll_frame e (poll now e)"
proof (cases "state e = IDLE \<or> state e = DONE \<or> state e = ERROR")
  case True
  then show ?thesis
    by (auto simp: poll_def poll_frame_refl)
next
  case False
  then have ne: "state e \<noteq> ERROR"
    by simp
  show ?thesis
  proof (cases "timeoutMs (opt e) < now - t0 e")
    case True
    with False show ?thesis
      by (simp add: poll_def poll_frame_fail)
  next
    case nt: False
    with False ne show ?thesis
      by (cases "state e")
        (simp_all add: poll_def stepConnect_frame stepSend_frame stepReadHeaders_frame
          stepReadBody_frame)
  qed
qed

lemma esp_headers_loop_empty: "rx (esp_client e) = [] \<Longrightarrow> esp_headers_loop e = (False, e)"
  by (subst esp_headers_loop.simps) (simp add: available_def)

lemma esp_headers_loop_frame:
  "esp_headers_loop e = (b, e') \<Longrightarrow>
   esp_err e' = esp_err e \<and> connected (esp_client e') = connected (esp_client e) \<and>
   esp_state e' = (if b then READ_BODY else esp_state e)"
proof (induction "length (rx (esp_client e))" arbitrary: e b e' rule: less_induct)
  case less
  show ?case
  proof (cases "rx (esp_client e) = []")
    case True
    with less.prems show ?thesis
      by (simp add: esp_headers_loop_empty)
  next
    case False
    obtain raw s where r: "readStringUntil LF (esp_client e) = (raw, s)"
      by (cases "readStringUntil LF (esp_client e)")
    from r False have len: "length (rx s) < length (rx (esp_client e))"
      by (rule readStringUntil_length)
    from r have con: "connected s = connected (esp_client e)"
      by (auto simp: readStringUntil_def Let_def)
    let ?e1 = "e\<lparr>esp_client := s, esp_status := esp_status_of (trim raw) (esp_status e)\<rparr>"
    show ?thesis
    proof (cases "length (trim raw) = 0")
      case True
      with less.prems False r have "b" "e' = ?e1\<lparr>esp_state := READ_BODY\<rparr>"
        by (subst (asm) esp_headers_loop.simps, simp add: available_def)+
      with con show ?thesis
        by simp
    next
      case nz: False
      with less.prems False r have "esp_headers_loop ?e1 = (b, e')"
        by (subst (asm) esp_headers_loop.simps) (simp add: available_def)
      from less.hyps [OF _ this] len con show ?thesis
        by simp
    qed
  qed
qed

lemma esp_body_loop_frame:
  "esp_err (esp_body_loop e) = esp_err e \<and>
   connected (esp_client (esp_body_loop e)) = connected (esp_client e) \<and>
   esp_state (esp_body_loop e) = esp_state e"
proof (induction "length (rx (esp_client e))" arbitrary: e rule: less_induct)
  case less
  show ?case
  proof (cases "rx (esp_client e) = []")
    case True
    then show ?thesis
      by (subst (1 2 3) esp_body_loop.simps) (simp add: available_def)
  next
    case False
    obtain buf s where r: "read_into 512 (esp_client e) = (buf, s)"
      by (cases "read_into 512 (esp_client e)")
    let ?e1 = "if 0 < length buf then esp_onBodyChunk buf (e\<lparr>esp_client := s\<rparr>)
               else e\<lparr>esp_client := s\<rparr>"
    from r False have len: "length (rx (esp_client ?e1)) < length (rx (esp_client e))"
      by (auto simp: read_into_def esp_onBodyChunk_def)
    have eq: "esp_body_loop e = esp_body_loop ?e1"
      using False r by (subst esp_body_loop.simps) (simp add: available_def)
    from less.hyps [OF len] read_into_connected [OF r] show ?thesis
      by (simp add: eq esp_onBodyChunk_def)
  qed
qed

lemma esp_failed_fail: "msg \<noteq> [] \<Longrightarrow> esp_failed (esp_fail msg e)"
  by (simp add: esp_failed_def esp_fail_def stop_stream_def)

lemma esp_poll_error:
  assumes "esp_state x \<noteq> ERROR" and "esp_state (esp_poll now x) = ERROR"
  shows "esp_failed (esp_poll now x)"
proof (cases "esp_state x = IDLE \<or> esp_state x = DONE")
  case True
  with assms show ?thesis
    by (auto simp: esp_poll_def)
next
  case idle: False
  show ?thesis
  proof (cases "esp_timeoutMs x < now - esp_startMs x")
    case True
    with idle assms(1) show ?thesis
      by (simp add: esp_poll_def esp_failed_fail)
  next
    case nt: False
    show ?thesis
    proof (cases "esp_state x")
      case CONNECT
      obtain ok s where c: "connect (esp_client x) = (ok, s)"
        by (cases "connect (esp_client x)")
      with CONNECT nt assms(2) show ?thesis
        by (cases ok; cases "connected (esp_client x)")
          (simp_all add: esp_poll_def esp_failed_fail)
    next
      case SEND
      obtain w s where p: "print (esp_request x) (esp_client x) = (w, s)"
        by (cases "print (esp_request x) (esp_client x)")
      with SEND nt assms(2) show ?thesis
        by (cases "w = 0") (simp_all add: esp_poll_def esp_failed_fail)
    next
      case READ_HEADERS
      obtain b e1 where h: "esp_headers_loop x = (b, e1)"
        by (cases "esp_headers_loop x")
      note f = esp_headers_loop_frame [OF h]
      from READ_HEADERS nt assms(2) h f show ?thesis
        by (cases b) (auto simp: esp_poll_def esp_failed_fail split: if_splits)
    next
      case READ_BODY
      with nt assms(2) esp_body_loop_frame [of x] show ?thesis
        by (auto simp: esp_poll_def Let_def split: if_splits)
    qed (use idle assms(1) in simp_all)
  qed
qed

lemma run_stream_only:
  assumes "\<not> keepBody (opt e)"
  shows "\<not> keepBody (opt (run evs e)) \<and> body (run evs e) = body e \<and>
         bodyOverflow (run evs e) = bodyOverflow e \<and>
         (err (run evs e) = ''body exceeded maxBodyBytes'' \<longrightarrow>
            err e = ''body exceeded maxBodyBytes'')"
  using assms
proof (induction evs arbitrary: e)
  case Nil
  then show ?case by simp
next
  case (Cons ev evs)
  obtain now net where ev: "ev = (now, net)"
    by (cases ev)
  let ?e0 = "e\<lparr>client := net (client e)\<rparr>"
  let ?e1 = "poll now ?e0"
  from poll_poll_frame [of ?e0 now] Cons.prems
  have f: "\<not> keepBody (opt ?e1)" "body ?e1 = body e" "bodyOverflow ?e1 = bodyOverflow e"
    "err ?e1 = ''body exceeded maxBodyBytes'' \<longrightarrow> err e = ''body exceeded maxBodyBytes''"
    by (auto simp: poll_frame_def sink_frame_def)
  from Cons.IH [OF f(1)] f show ?case
    by (simp add: ev)
qed

section \<open>Failures\<close>

text \<open>
  C8: whenever a poll, in either class, or a request submission takes the engine into
  the state ERROR, the stream is closed at once (not connected, nothing left to read)
  and a non-empty description of the error is recorded; request submission of
  \<open>ESPAsyncHttpsClient\<close> never fails. In the state ERROR a poll changes nothing, so it
  does no I/O on the stream.
\<close>

theorem error_closes_stream:
  "(state e \<noteq> ERROR \<and> state (poll now e) = ERROR \<longrightarrow>
      \<not> connected (client (poll now e)) \<and> available (client (poll now e)) = 0 \<and>
      err (poll now e) \<noteq> []) \<and>
   (state (snd (beginRequest m h p pth bdy ct extra now e)) = ERROR \<longrightarrow>
      \<not> connected (client (snd (beginRequest m h p pth bdy ct extra now e))) \<and>
      available (client (snd (beginRequest m h p pth bdy ct extra now e))) = 0 \<and>
      err (snd (beginRequest m h p pth bdy ct extra now e)) \<noteq> []) \<and>
   (state e = ERROR \<longrightarrow> poll now e = e) \<and>
   (esp_state x \<noteq> ERROR \<and> esp_state (esp_poll now x) = ERROR \<longrightarrow>
      \<not> connected (esp_client (esp_poll now x)) \<and> available (esp_client (esp_poll now x)) = 0 \<and>
      esp_err (esp_poll now x) \<noteq> []) \<and>
   esp_state (esp_beginRequest m h p pth bdy ct now x) \<noteq> ERROR \<and>
   (esp_state x = ERROR \<longrightarrow> esp_poll now x = x)"
proof (intro conjI impI)
  assume a: "state e \<noteq> ERROR \<and> state (poll now e) = ERROR"
  with poll_poll_frame [of e now] have "failed (poll now e)"
    by (auto simp: poll_frame_def)
  then show "\<not> connected (client (poll now e))" "available (client (poll now e)) = 0"
    "err (poll now e) \<noteq> []"
    by (simp_all add: failed_def available_def)
next
  let ?r = "snd (beginRequest m h p pth bdy ct extra now e)"
  assume a: "state ?r = ERROR"
  have "failed ?r"
  proof (cases "hasCa e \<and> hasTime e")
    case True
    with a show ?thesis
      by (simp add: beginRequest_def Let_def reset_flags)
  next
    case False
    then show ?thesis
      by (auto simp: beginRequest_def Let_def reset_flags failed_fail)
  qed
  then show "\<not> connected (client ?r)" "available (client ?r) = 0" "err ?r \<noteq> []"
    by (simp_all add: failed_def available_def)
next
  assume "state e = ERROR"
  then show "poll now e = e"
    by (simp add: poll_def)
next
  assume a: "esp_state x \<noteq> ERROR \<and> esp_state (esp_poll now x) = ERROR"
  then have "esp_failed (esp_poll now x)"
    by (simp add: esp_poll_error)
  then show "\<not> connected (esp_client (esp_poll now x))"
    "available (esp_client (esp_poll now x)) = 0" "esp_err (esp_poll now x) \<noteq> []"
    by (simp_all add: esp_failed_def available_def)
next
  show "esp_state (esp_beginRequest m h p pth bdy ct now x) \<noteq> ERROR"
    by (simp add: esp_beginRequest_def Let_def)
next
  assume "esp_state x = ERROR"
  then show "esp_poll now x = x"
    by (simp add: esp_poll_def)
qed

theorem error_closes_stream_witness:
  "state (new_engine\<lparr>state := READ_HEADERS\<rparr>) \<noteq> ERROR \<and>
   state (poll 0 (new_engine\<lparr>state := READ_HEADERS\<rparr>)) = ERROR \<and>
   \<not> connected (client (poll 0 (new_engine\<lparr>state := READ_HEADERS\<rparr>))) \<and>
   err (poll 0 (new_engine\<lparr>state := READ_HEADERS\<rparr>)) \<noteq> [] \<and>
   poll 0 (new_engine\<lparr>state := ERROR\<rparr>) = new_engine\<lparr>state := ERROR\<rparr>"
proof -
  let ?e = "new_engine\<lparr>state := READ_HEADERS\<rparr>"
  have p: "poll 0 ?e = fail ''closed during headers'' ?e"
    by (simp add: poll_def stepReadHeaders_def available_def new_engine_def new_stream_def
        default_Options_def)
  have s: "state ?e \<noteq> ERROR" "state (poll 0 ?e) = ERROR"
    by (simp_all add: p fail_fields)
  from error_closes_stream [of ?e 0] s
  have "\<not> connected (client (poll 0 ?e)) \<and> err (poll 0 ?e) \<noteq> []"
    by simp
  moreover from error_closes_stream [of "new_engine\<lparr>state := ERROR\<rparr>" 0]
  have "poll 0 (new_engine\<lparr>state := ERROR\<rparr>) = new_engine\<lparr>state := ERROR\<rparr>"
    by simp
  ultimately show ?thesis
    using s by simp
qed

section \<open>Stream-only mode\<close>

text \<open>
  C10: when the keep-body option is false the default sink accepts every fragment,
  whatever its length, and changes nothing. Through any sequence of polls, whatever the
  network does in between, the body accumulator and the overflow flag stay as they
  were (empty and unset after a request has begun), and the error for a body that is
  too large never appears.
\<close>

theorem stream_only_sink:
  "\<not> keepBody (opt e) \<longrightarrow>
     onBodyChunk d e = (True, e) \<and>
     body (run evs e) = body e \<and>
     bodyOverflow (run evs e) = bodyOverflow e \<and>
     (err e \<noteq> ''body exceeded maxBodyBytes'' \<longrightarrow>
        err (run evs e) \<noteq> ''body exceeded maxBodyBytes'')"
  using run_stream_only [of e evs] by (auto simp: onBodyChunk_stream_only)

theorem stream_only_sink_witness:
  "\<not> keepBody (opt (new_engine\<lparr>opt := default_Options\<lparr>keepBody := False\<rparr>\<rparr>)) \<and>
   onBodyChunk ''abc'' (new_engine\<lparr>opt := default_Options\<lparr>keepBody := False\<rparr>\<rparr>) =
     (True, new_engine\<lparr>opt := default_Options\<lparr>keepBody := False\<rparr>\<rparr>) \<and>
   body (run [(0, \<lambda>s. s\<lparr>rx := ''abc''\<rparr>)]
           (new_engine\<lparr>opt := default_Options\<lparr>keepBody := False\<rparr>\<rparr>)) = []"
  using stream_only_sink [of "new_engine\<lparr>opt := default_Options\<lparr>keepBody := False\<rparr>\<rparr>" "''abc''"
      "[(0, \<lambda>s. s\<lparr>rx := ''abc''\<rparr>)]"]
  by (simp add: new_engine_def)

section \<open>The body until the stream closes\<close>

lemma body_loop_empty: "rx (client e) = [] \<Longrightarrow> body_loop e = (False, e)"
  by (subst body_loop.simps) (simp add: available_def)

lemma body_loop_no_buffer: "bufSz e = 0 \<Longrightarrow> body_loop e = (False, e)"
  by (subst body_loop.simps) (simp add: available_def read_into_def)

lemma body_loop_step:
  assumes "rx (client e) \<noteq> []" and "0 < bufSz e"
  shows "body_loop e =
     (case onBodyChunk (take (bufSz e) (rx (client e)))
             (e\<lparr>client := (client e)\<lparr>rx := drop (bufSz e) (rx (client e))\<rparr>\<rparr>) of
        (False, e1) \<Rightarrow> (True, sink_failure e1)
      | (True, e1) \<Rightarrow> body_loop e1)"
  using assms by (subst body_loop.simps) (simp add: available_def read_into_def)

lemma body_loop_drains:
  assumes "0 < bufSz e" and "body_loop e = (ret, e')"
  shows "(\<not> ret \<and> rx (client e') = []) \<longleftrightarrow> fits e"
  using assms
proof (induction "length (rx (client e))" arbitrary: e rule: less_induct)
  case less
  show ?case
  proof (cases "rx (client e) = []")
    case True
    with less.prems show ?thesis
      by (auto simp: body_loop_empty fits_def)
  next
    case ne: False
    let ?buf = "take (bufSz e) (rx (client e))"
    let ?rest = "drop (bufSz e) (rx (client e))"
    let ?e0 = "e\<lparr>client := (client e)\<lparr>rx := ?rest\<rparr>\<rparr>"
    note step = body_loop_step [OF ne less.prems(1)]
    have lb: "0 < length ?buf"
      using ne less.prems(1) by (cases "rx (client e)") simp_all
    have split: "length ?buf + length ?rest = length (rx (client e))"
      by simp
    show ?thesis
    proof (cases "keepBody (opt e)")
      case False
      then have o: "onBodyChunk ?buf ?e0 = (True, ?e0)"
        by (simp add: onBodyChunk_stream_only)
      with step less.prems(2) have b: "body_loop ?e0 = (ret, e')"
        by simp
      have "length (rx (client ?e0)) < length (rx (client e))"
        using lb split by simp
      from less.hyps [OF this _ b] less.prems(1) False show ?thesis
        by (simp add: fits_def bufSz_def)
    next
      case kb: True
      show ?thesis
      proof (cases "unat (maxBodyBytes (opt e)) < length (body e) + length ?buf")
        case True
        then have "onBodyChunk ?buf ?e0 = (False, ?e0\<lparr>bodyOverflow := True\<rparr>)"
          using kb by (simp add: onBodyChunk_reject)
        with step less.prems(2) have "ret"
          by simp
        moreover have "\<not> fits e"
          using True ne kb split by (simp add: fits_def)
        ultimately show ?thesis
          by simp
      next
        case False
        let ?e1 = "?e0\<lparr>body := body e @ ?buf\<rparr>"
        from False kb have "onBodyChunk ?buf ?e0 = (True, ?e1)"
          by (simp add: onBodyChunk_accept)
        with step less.prems(2) have b: "body_loop ?e1 = (ret, e')"
          by simp
        have "length (rx (client ?e1)) < length (rx (client e))"
          using lb split by simp
        from less.hyps [OF this _ b] less.prems(1)
        have "(\<not> ret \<and> rx (client e') = []) \<longleftrightarrow> fits ?e1"
          by (simp add: bufSz_def)
        moreover have "fits ?e1 \<longleftrightarrow> fits e"
          using False ne kb split by (auto simp: fits_def)
        ultimately show ?thesis
          by simp
      qed
    qed
  qed
qed

lemma onBodyChunk_contentLength:
  "onBodyChunk d (e\<lparr>contentLength := n\<rparr>) =
     (fst (onBodyChunk d e), (snd (onBodyChunk d e))\<lparr>contentLength := n\<rparr>)"
  by (simp add: onBodyChunk_def)

lemma sink_failure_contentLength:
  "sink_failure (e\<lparr>contentLength := n\<rparr>) = (sink_failure e)\<lparr>contentLength := n\<rparr>"
  by (simp add: sink_failure_def fail_def)

lemma body_loop_contentLength:
  "body_loop (e\<lparr>contentLength := n\<rparr>) =
     (fst (body_loop e), (snd (body_loop e))\<lparr>contentLength := n\<rparr>)"
proof (induction "length (rx (client e))" arbitrary: e rule: less_induct)
  case less
  show ?case
  proof (cases "rx (client e) = [] \<or> bufSz e = 0")
    case True
    then show ?thesis
      by (auto simp: body_loop_empty body_loop_no_buffer bufSz_def)
  next
    case False
    then have ne: "rx (client e) \<noteq> []" and bz: "0 < bufSz e"
      by simp_all
    let ?buf = "take (bufSz e) (rx (client e))"
    let ?e0 = "e\<lparr>client := (client e)\<lparr>rx := drop (bufSz e) (rx (client e))\<rparr>\<rparr>"
    obtain ok e1 where o: "onBodyChunk ?buf ?e0 = (ok, e1)"
      by (cases "onBodyChunk ?buf ?e0")
    have c1: "client e1 = client ?e0"
      using o by (rule onBodyChunk_client)
    have o': "onBodyChunk ?buf (?e0\<lparr>contentLength := n\<rparr>) = (ok, e1\<lparr>contentLength := n\<rparr>)"
      by (simp add: onBodyChunk_contentLength o)
    have ne': "rx (client (e\<lparr>contentLength := n\<rparr>)) \<noteq> []" and bz': "0 < bufSz (e\<lparr>contentLength := n\<rparr>)"
      using ne bz by (simp_all add: bufSz_def)
    have s1: "body_loop e = (if ok then body_loop e1 else (True, sink_failure e1))"
      using body_loop_step [OF ne bz] o by simp
    have sw: "e\<lparr>contentLength := n, client := c\<rparr> = e\<lparr>client := c, contentLength := n\<rparr>" for c
      by (cases e) simp
    have s2: "body_loop (e\<lparr>contentLength := n\<rparr>) =
        (if ok then body_loop (e1\<lparr>contentLength := n\<rparr>)
         else (True, sink_failure (e1\<lparr>contentLength := n\<rparr>)))"
      using body_loop_step [OF ne' bz'] o' by (simp add: bufSz_def sw)
    have "length (rx (client e1)) < length (rx (client e))"
      using c1 ne bz by (cases "rx (client e)") simp_all
    from less.hyps [OF this] show ?thesis
      by (simp add: s1 s2 sink_failure_contentLength)
  qed
qed

text \<open>
  C5: in the state READ_BODY of a response that is not chunked, a step ends in DONE
  exactly when the stream is not connected and nothing is left to read after the loop:
  nothing was there, or the read buffer is not empty and the sink has accepted all of
  it. The parsed Content-Length takes no part: with any other value the step does the
  same and leaves that value.
\<close>

theorem until_close_completion:
  assumes "seenHeaderEnd e" and "\<not> chunked e" and "state e = READ_BODY"
  shows "(state (stepReadBody e) = DONE \<longleftrightarrow>
            \<not> connected (client e) \<and>
            (rx (client e) = [] \<or>
             0 < bufSz e \<and>
             (keepBody (opt e) \<longrightarrow>
                length (body e) + length (rx (client e)) \<le> unat (maxBodyBytes (opt e))))) \<and>
         stepReadBody (e\<lparr>contentLength := n\<rparr>) = (stepReadBody e)\<lparr>contentLength := n\<rparr>"
proof
  obtain ret e1 where b: "body_loop e = (ret, e1)"
    by (cases "body_loop e")
  note f = body_loop_frame [OF b]
  show "state (stepReadBody e) = DONE \<longleftrightarrow>
            \<not> connected (client e) \<and>
            (rx (client e) = [] \<or>
             0 < bufSz e \<and>
             (keepBody (opt e) \<longrightarrow>
                length (body e) + length (rx (client e)) \<le> unat (maxBodyBytes (opt e))))"
  proof (cases "bufSz e = 0")
    case True
    with b have "ret = False" "e1 = e"
      by (simp_all add: body_loop_no_buffer)
    with True b assms show ?thesis
      by (simp add: stepReadBody_def available_def)
  next
    case False
    then have bz: "0 < bufSz e"
      by simp
    note d = body_loop_drains [OF bz b]
    show ?thesis
    proof (cases ret)
      case True
      with f have "state e1 = ERROR"
        by (simp add: failed_def)
      moreover from True b assms have "stepReadBody e = e1"
        by (simp add: stepReadBody_def)
      moreover from True d have "\<not> fits e"
        by simp
      ultimately show ?thesis
        using bz by (auto simp: fits_def)
    next
      case nr: False
      with f assms have q: "state e1 = READ_BODY" "connected (client e1) = connected (client e)"
        by (simp_all add: quiet_def)
      from nr d have "rx (client e1) = [] \<longleftrightarrow> fits e"
        by simp
      with nr b assms q bz show ?thesis
        by (auto simp: stepReadBody_def available_def fits_def)
    qed
  qed
next
  show "stepReadBody (e\<lparr>contentLength := n\<rparr>) = (stepReadBody e)\<lparr>contentLength := n\<rparr>"
    using assms
    by (cases "body_loop e")
      (simp add: stepReadBody_def body_loop_contentLength split: bool.splits)
qed

theorem until_close_completion_witness:
  "contentLength short_body_engine = 10 \<and> length (rx (client short_body_engine)) = 2 \<and>
   state (stepReadBody short_body_engine) = DONE"
proof -
  have h: "seenHeaderEnd short_body_engine" "\<not> chunked short_body_engine"
    "state short_body_engine = READ_BODY"
    by (simp_all add: short_body_engine_def new_engine_def)
  have c: "\<not> connected (client short_body_engine)" "rx (client short_body_engine) = ''ok''"
    "body short_body_engine = []" "contentLength short_body_engine = 10"
    by (simp_all add: short_body_engine_def new_engine_def new_stream_def)
  have o: "0 < bufSz short_body_engine"
    "unat (maxBodyBytes (opt short_body_engine)) = 16384"
    by (simp_all add: short_body_engine_def new_engine_def default_Options_def bufSz_def)
  from until_close_completion [OF h, of 10, THEN conjunct1] c o
  have "state (stepReadBody short_body_engine) = DONE"
    by simp
  with c show ?thesis
    by simp
qed

section \<open>The Content-Length header\<close>

lemma trim_inner:
  assumes "s \<noteq> []" and "\<not> isspace (hd s)" and "\<not> isspace (last s)"
    and "\<forall>c\<in>set v. isspace c" and "\<forall>c\<in>set w. isspace c"
  shows "trim (v @ s @ w) = s"
proof -
  from assms(1) obtain a s' where s: "s = a # s'"
    by (cases s) auto
  from assms(1) obtain s'' b where s2: "s = s'' @ [b]"
    by (cases s rule: rev_cases) auto
  have "dropWhile isspace (v @ s @ w) = s @ w"
    using assms(2,4) s by (simp add: dropWhile_append)
  moreover have "dropWhile isspace (rev (s @ w)) = rev s"
    using assms(3,5) s2 by (simp add: dropWhile_append)
  ultimately show ?thesis
    by (simp add: trim_def)
qed

lemma ord_digit_char: "d < 10 \<Longrightarrow> ord (digit_char d) = 48 + d"
  by (simp add: digit_char_def ord_char_of)

lemma to_digits_set:
  assumes "2 \<le> b"
  shows "c \<in> set (to_digits b n) \<Longrightarrow> \<exists>d<b. c = digit_char d"
  using assms
proof (induction b n rule: to_digits.induct)
  case (1 b n)
  show ?case
  proof (cases "n < b")
    case True
    with "1.prems" show ?thesis
      by (subst (asm) to_digits.simps) auto
  next
    case False
    with "1.prems" have nb: "\<not> (b < 2 \<or> n < b)"
      by simp
    have "to_digits b n = to_digits b (n div b) @ [digit_char (n mod b)]"
      using nb by (subst to_digits.simps) simp
    with "1.prems" have "c \<in> set (to_digits b (n div b)) \<or> c = digit_char (n mod b)"
      by auto
    then show ?thesis
    proof
      assume "c \<in> set (to_digits b (n div b))"
      from "1.IH" [OF nb this "1.prems"(2)] show ?thesis .
    next
      assume "c = digit_char (n mod b)"
      moreover have "n mod b < b"
        using "1.prems"(2) by simp
      ultimately show ?thesis
        by blast
    qed
  qed
qed

lemma to_digits_nonempty: "to_digits b n \<noteq> []"
  by (subst to_digits.simps) simp

lemma digits10_chars:
  assumes "c \<in> set (digits10 n)"
  shows "\<not> isspace c" "c \<noteq> NUL" "c \<noteq> LF" "c \<noteq> CHR ''-''" "c \<noteq> CHR ''+''"
proof -
  from assms obtain d where d: "d < 10" "c = digit_char d"
    using to_digits_set [of 10 c n] by (auto simp: digits10_def)
  then have o: "ord c = 48 + d"
    by (simp add: ord_digit_char)
  with d(1) show "\<not> isspace c"
    by (simp add: isspace_def)
  from o d(1) show "c \<noteq> NUL" "c \<noteq> LF" "c \<noteq> CHR ''-''" "c \<noteq> CHR ''+''"
    by (auto simp: ord_def NUL_def LF_def)
qed

lemma digits10_nonempty: "digits10 n \<noteq> []"
  by (simp add: digits10_def to_digits_nonempty)

lemma toInt_digits10: "toInt (digits10 n) = (if 2 ^ 31 \<le> n then 2 ^ 31 - 1 else int n)"
proof -
  obtain a r where d: "digits10 n = a # r"
    using digits10_nonempty [of n] by (cases "digits10 n") auto
  have a: "a \<in> set (digits10 n)"
    by (simp add: d)
  have "c_str (digits10 n) = digits10 n"
    using digits10_chars(2) by (auto simp: c_str_def takeWhile_eq_all_conv)
  moreover have "dropWhile isspace (digits10 n) = digits10 n"
    using digits10_chars(1) [OF a] by (simp add: d)
  moreover have "read_sign (digits10 n) = (False, digits10 n)"
    using digits10_chars(4,5) [OF a] by (simp add: d)
  ultimately show ?thesis
    by (simp add: toInt_def read_digits_digits10)
qed

lemma tolower_ord:
  "ord (tolower c) = (if 65 \<le> ord c \<and> ord c \<le> 90 then ord c + 32 else ord c)"
  by (simp add: tolower_def ord_char_of)

lemma tolower_lower_range:
  assumes "97 \<le> ord (tolower c) \<or> ord (tolower c) = 45 \<or> ord (tolower c) = 58"
  shows "\<not> isspace c" "c \<noteq> LF"
proof -
  from assms have r: "65 \<le> ord c \<or> ord c = 45 \<or> ord c = 58"
    by (auto simp: tolower_ord split: if_splits)
  then show "\<not> isspace c"
    by (auto simp: isspace_def)
  have "ord LF = 10"
    by (simp add: LF_def ord_def)
  with r show "c \<noteq> LF"
    by auto
qed

lemma header_name_chars:
  assumes "map tolower name = ''content-length:''" and "c \<in> set name"
  shows "\<not> isspace c" "c \<noteq> LF"
proof -
  from assms(2) have "tolower c \<in> set (map tolower name)"
    by simp
  then have "tolower c \<in> set ''content-length:''"
    by (simp only: assms(1))
  then have "97 \<le> ord (tolower c) \<or> ord (tolower c) = 45 \<or> ord (tolower c) = 58"
    by (auto simp: ord_def)
  then show "\<not> isspace c" "c \<noteq> LF"
    by (rule tolower_lower_range)+
qed

lemma header_name_shape:
  assumes "map tolower name = ''content-length:''"
  shows "length name = 15" "name \<noteq> []" "\<not> isspace (hd name)" "hd name \<noteq> CHR ''H''"
    "startsWithNoCase (name @ r) ''Content-Length:''"
proof -
  from assms have "length (map tolower name) = 15"
    by simp
  then show l: "length name = 15"
    by simp
  then show ne: "name \<noteq> []"
    by auto
  then obtain a r' where n: "name = a # r'"
    by (cases name) auto
  with assms have "tolower a = CHR ''c''"
    by simp
  then have "97 \<le> ord (tolower a) \<or> ord (tolower a) = 45 \<or> ord (tolower a) = 58"
    by (simp add: ord_def)
  from tolower_lower_range(1) [OF this] n show "\<not> isspace (hd name)"
    by simp
  have "tolower (CHR ''H'') = CHR ''h''"
    by (simp add: tolower_def ord_def char_of_def bit_Suc_0_iff)
  with \<open>tolower a = CHR ''c''\<close> n show "hd name \<noteq> CHR ''H''"
    by auto
  have "map tolower name = map tolower ''Content-Length:''"
    by (simp add: assms tolower_def ord_def char_of_def bit_Suc_0_iff)
  then have "list_all2 (\<lambda>a b. tolower a = tolower b) name ''Content-Length:''"
    by (simp only: list.rel_eq [symmetric] list.rel_map)
  with l show "startsWithNoCase (name @ r) ''Content-Length:''"
    by (simp add: startsWithNoCase_def)
qed


lemma header_line_content_length:
  assumes name: "map tolower name = ''content-length:''"
    and ws: "\<forall>c\<in>set ws1. isspace c" "\<forall>c\<in>set ws2. isspace c"
    and ln: "line e = name @ ws1 @ digits10 v @ ws2 @ [LF]"
  shows "header_line e =
     (False, e\<lparr>line := [],
                contentLength := (if 2 ^ 31 \<le> v then 2 ^ 31 - 1 else int v)\<rparr>)"
proof -
  let ?ds = "digits10 v"
  let ?core = "name @ ws1 @ ?ds"
  note sh = header_name_shape [OF name]
  have dn: "?ds \<noteq> []"
    by (rule digits10_nonempty)
  have dl: "\<not> isspace (last ?ds)" and dh: "\<not> isspace (hd ?ds)"
    using digits10_chars(1) [of _ v] dn by simp_all
  have core: "?core \<noteq> []" "\<not> isspace (hd ?core)" "\<not> isspace (last ?core)"
    using sh dn dl by simp_all
  have lf: "\<forall>c\<in>set (ws2 @ [LF]). isspace c"
    using ws(2) by (simp add: isspace_def LF_def ord_def)
  have "trim (line e) = trim ([] @ ?core @ (ws2 @ [LF]))"
    by (simp add: ln)
  also have "\<dots> = ?core"
    by (rule trim_inner [OF core _ lf]) simp
  finally have t: "trim (line e) = ?core" .
  have nh: "\<not> startsWith ?core ''HTTP/1.1''"
    using sh(2,4) by (cases name) (auto simp: startsWith_def)
  have sub: "substring_from ?core (length ''Content-Length:'') = ws1 @ ?ds"
    using sh(1) dn by (simp add: substring_from_def substring_def Let_def)
  have "trim (ws1 @ ?ds) = trim (ws1 @ ?ds @ [])"
    by simp
  also have "\<dots> = ?ds"
    by (rule trim_inner [OF dn dh dl ws(1)]) simp
  finally have tv: "trim (ws1 @ ?ds) = ?ds" .
  have c1: "length ?core \<noteq> 0"
    using core(1) by simp
  have sn: "startsWithNoCase ?core ''Content-Length:''"
    by (rule sh(5))
  show ?thesis
    by (simp only: header_line_def Let_def t c1 nh sn sub tv toInt_digits10 if_False if_True
        simp_thms)
qed

lemma headerBytes_next:
  assumes "hb + 1 \<le> unat (m :: 32 word)"
  shows "Suc hb mod 4294967296 = Suc hb"
proof -
  have "unat m < 2 ^ 32"
    using unsigned_less [of m, where ?'a = nat] by simp
  with assms show ?thesis
    by simp
qed

lemma headers_loop_char:
  assumes rx: "rx (client e) = c # r" and c: "c \<noteq> LF"
    and ln: "length (line e) + 1 \<le> 512"
    and hb: "headerBytes e + 1 \<le> unat (maxHeaderBytes (opt e))"
  shows "headers_loop e =
     headers_loop (e\<lparr>client := (client e)\<lparr>rx := r\<rparr>, headerBytes := headerBytes e + 1,
                      line := line e @ [c]\<rparr>)"
  using c ln hb
  by (subst headers_loop_step [OF rx]) (simp add: Let_def headerBytes_next [OF hb])

lemma headers_loop_newline:
  assumes rx: "rx (client e) = LF # r"
    and ln: "length (line e) + 1 \<le> 512"
    and hb: "headerBytes e + 1 \<le> unat (maxHeaderBytes (opt e))"
  shows "headers_loop e =
     (case header_line (e\<lparr>client := (client e)\<lparr>rx := r\<rparr>, headerBytes := headerBytes e + 1,
                           line := line e @ [LF]\<rparr>) of
        (True, e3) \<Rightarrow> e3
      | (False, e3) \<Rightarrow> headers_loop e3)"
  using ln hb
  by (subst headers_loop_step [OF rx]) (simp add: Let_def headerBytes_next [OF hb])

lemma headers_loop_chars:
  assumes "rx (client e) = cs @ r" and "LF \<notin> set cs"
    and "length (line e) + length cs \<le> 512"
    and "headerBytes e + length cs \<le> unat (maxHeaderBytes (opt e))"
  shows "headers_loop e =
     headers_loop (e\<lparr>client := (client e)\<lparr>rx := r\<rparr>,
                      headerBytes := headerBytes e + length cs, line := line e @ cs\<rparr>)"
  using assms
proof (induction cs arbitrary: e)
  case Nil
  have "e\<lparr>client := (client e)\<lparr>rx := r\<rparr>, headerBytes := headerBytes e + length ([]::string),
            line := line e @ []\<rparr> = e"
    using Nil.prems(1) by simp
  then show ?case
    by simp
next
  case (Cons c cs)
  let ?e2 = "e\<lparr>client := (client e)\<lparr>rx := cs @ r\<rparr>, headerBytes := headerBytes e + 1,
                 line := line e @ [c]\<rparr>"
  have s: "headers_loop e = headers_loop ?e2"
    using Cons.prems by (intro headers_loop_char) auto
  have "headers_loop ?e2 =
     headers_loop (?e2\<lparr>client := (client ?e2)\<lparr>rx := r\<rparr>,
                        headerBytes := headerBytes ?e2 + length cs, line := line ?e2 @ cs\<rparr>)"
    using Cons.prems by (intro Cons.IH) simp_all
  also have "?e2\<lparr>client := (client ?e2)\<lparr>rx := r\<rparr>,
                  headerBytes := headerBytes ?e2 + length cs, line := line ?e2 @ cs\<rparr> =
     e\<lparr>client := (client e)\<lparr>rx := r\<rparr>, headerBytes := headerBytes e + length (c # cs),
        line := line e @ c # cs\<rparr>"
    by simp
  finally show ?case
    using s by simp
qed

lemma headers_loop_content_length:
  assumes name: "map tolower name = ''content-length:''"
    and ws1: "\<forall>c\<in>set ws1. isspace c \<and> c \<noteq> LF"
    and ws2: "\<forall>c\<in>set ws2. isspace c \<and> c \<noteq> LF"
    and ln: "line e = []"
    and rx: "rx (client e) = name @ ws1 @ digits10 v @ ws2 @ LF # rest"
    and cap1: "length (name @ ws1 @ digits10 v @ ws2) < 512"
    and cap2: "headerBytes e + length (name @ ws1 @ digits10 v @ ws2) <
                 unat (maxHeaderBytes (opt e))"
  shows "headers_loop e =
     headers_loop
       (e\<lparr>client := (client e)\<lparr>rx := rest\<rparr>,
          headerBytes := headerBytes e + length (name @ ws1 @ digits10 v @ ws2) + 1,
          contentLength := (if 2 ^ 31 \<le> v then 2 ^ 31 - 1 else int v)\<rparr>)"
proof -
  let ?cs = "name @ ws1 @ digits10 v @ ws2"
  let ?e1 = "e\<lparr>client := (client e)\<lparr>rx := LF # rest\<rparr>,
                 headerBytes := headerBytes e + length ?cs, line := line e @ ?cs\<rparr>"
  let ?e2 = "?e1\<lparr>client := (client ?e1)\<lparr>rx := rest\<rparr>, headerBytes := headerBytes ?e1 + 1,
                  line := line ?e1 @ [LF]\<rparr>"
  have nolf: "LF \<notin> set ?cs"
    using header_name_chars(2) [OF name] ws1 ws2 digits10_chars(3) [of _ v] by auto
  have "rx (client e) = ?cs @ LF # rest"
    using rx by simp
  from headers_loop_chars [OF this nolf] ln cap1 cap2
  have a: "headers_loop e = headers_loop ?e1"
    by simp
  have b: "headers_loop ?e1 =
     (case header_line ?e2 of (True, e3) \<Rightarrow> e3 | (False, e3) \<Rightarrow> headers_loop e3)"
    using ln cap1 cap2 by (intro headers_loop_newline) simp_all
  have l2: "line ?e2 = name @ ws1 @ digits10 v @ ws2 @ [LF]"
    using ln by simp
  have w: "\<forall>c\<in>set ws1. isspace c" "\<forall>c\<in>set ws2. isspace c"
    using ws1 ws2 by simp_all
  have c: "header_line ?e2 =
     (False, ?e2\<lparr>line := [], contentLength := (if 2 ^ 31 \<le> v then 2 ^ 31 - 1 else int v)\<rparr>)"
    by (rule header_line_content_length [OF name w l2])
  have d: "?e2\<lparr>line := [], contentLength := (if 2 ^ 31 \<le> v then 2 ^ 31 - 1 else int v)\<rparr> =
     e\<lparr>client := (client e)\<lparr>rx := rest\<rparr>,
       headerBytes := headerBytes e + length ?cs + 1,
       contentLength := (if 2 ^ 31 \<le> v then 2 ^ 31 - 1 else int v)\<rparr>"
    using ln by (cases e) simp
  show ?thesis
    by (simp only: a b c d prod.case bool.case)
qed

text \<open>
  C7, as stated, fails: every byte of a header line, blanks included, counts against
  the cap on the header bytes. After 4076 header bytes, with the default cap of 4096,
  the line \<open>Content-Length:  42\<close> with its blanks and terminator ends in ERROR with the
  headers too large and no Content-Length parsed, while \<open>Content-Length:42\<close> sets 42.
\<close>

theorem header_cap_counterexample:
  "state (headers_loop (late_header_engine (''Content-Length:  42 '' @ CRLF))) = ERROR \<and>
   err (headers_loop (late_header_engine (''Content-Length:  42 '' @ CRLF))) =
     ''headers too large'' \<and>
   contentLength (headers_loop (late_header_engine (''Content-Length:  42 '' @ CRLF))) = -1 \<and>
   contentLength (headers_loop (late_header_engine (''Content-Length:42'' @ CRLF))) = 42"
proof -
  have d: "digits10 42 = ''42''"
    by (simp add: digits10_def to_digits.simps char_eval)
  have f: "line (late_header_engine s) = []" "headerBytes (late_header_engine s) = 4076"
    "unat (maxHeaderBytes (opt (late_header_engine s))) = 4096"
    "rx (client (late_header_engine s)) = s" "contentLength (late_header_engine s) = -1" for s
    by (simp_all add: late_header_engine_def header_engine_def new_engine_def
        default_Options_def)
  let ?e1 = "late_header_engine (''Content-Length:  42 '' @ CRLF)"
  let ?e2 = "late_header_engine (''Content-Length:42'' @ CRLF)"
  let ?m = "?e1\<lparr>client := (client ?e1)\<lparr>rx := CRLF\<rparr>,
                headerBytes := headerBytes ?e1 + length ''Content-Length:  42 '',
                line := line ?e1 @ ''Content-Length:  42 ''\<rparr>"
  let ?x = "?m\<lparr>client := (client ?m)\<lparr>rx := [LF]\<rparr>,
               headerBytes := (headerBytes ?m + 1) mod 2 ^ 32\<rparr>"
  have "headers_loop ?e1 = headers_loop ?m"
    by (rule headers_loop_chars) (simp_all add: f char_eval)
  also have "\<dots> = fail ''headers too large'' ?x"
    by (subst headers_loop_step [of ?m CR "[LF]"]) (simp_all add: f CRLF_def Let_def)
  finally have a: "headers_loop ?e1 = fail ''headers too large'' ?x" .
  have n: "map tolower ''Content-Length:'' = ''content-length:''"
    by (simp add: char_eval)
  have w: "\<forall>c\<in>set []. isspace c \<and> c \<noteq> LF" "\<forall>c\<in>set [CR]. isspace c \<and> c \<noteq> LF"
    by (simp_all add: char_eval)
  have r: "rx (client ?e2) = ''Content-Length:'' @ [] @ digits10 42 @ [CR] @ LF # []"
    by (simp add: f d CRLF_def)
  have "headers_loop ?e2 =
     headers_loop (?e2\<lparr>client := (client ?e2)\<lparr>rx := []\<rparr>,
        headerBytes := headerBytes ?e2 + length (''Content-Length:'' @ [] @ digits10 42 @ [CR]) + 1,
        contentLength := (if 2 ^ 31 \<le> (42::nat) then 2 ^ 31 - 1 else int 42)\<rparr>)"
    by (rule headers_loop_content_length [OF n w f(1) r]) (simp_all add: f d)
  then have b: "contentLength (headers_loop ?e2) = 42"
    by (simp add: headers_loop_empty)
  have s1: "state (headers_loop ?e1) = ERROR"
    and s2: "err (headers_loop ?e1) = ''headers too large''"
    and s3: "contentLength (headers_loop ?e1) = -1"
    unfolding a by (simp_all add: fail_def f)
  from s1 s2 s3 b show ?thesis
    by (intro conjI)
qed

text \<open>
  C7, amended: while the line with its newline is at most 512 bytes long and the count
  of header bytes stays within max header bytes, a header line made of the name
  \<open>Content-Length:\<close> in any mix of upper and lower case, any whitespace, the decimal
  digits of a value, any whitespace (a carriage return or none) and the newline sets
  the parsed Content-Length to the value (to \<open>LONG_MAX\<close> when the value does not
  fit), whatever the whitespace and the case are. The header loop goes on with the rest
  of the stream from that state; when the line is all that has arrived, that state is
  the result, with the parsed value and the state of the engine unchanged.
\<close>

theorem content_length_spacing:
  assumes name: "map tolower name = ''content-length:''"
    and ws1: "\<forall>c\<in>set ws1. isspace c \<and> c \<noteq> LF"
    and ws2: "\<forall>c\<in>set ws2. isspace c \<and> c \<noteq> LF"
    and ln: "line e = []"
    and rx: "rx (client e) = name @ ws1 @ digits10 v @ ws2 @ LF # rest"
    and cap1: "length (name @ ws1 @ digits10 v @ ws2) < 512"
    and cap2: "headerBytes e + length (name @ ws1 @ digits10 v @ ws2) <
                 unat (maxHeaderBytes (opt e))"
  shows "headers_loop e =
     headers_loop
       (e\<lparr>client := (client e)\<lparr>rx := rest\<rparr>,
          headerBytes := headerBytes e + length (name @ ws1 @ digits10 v @ ws2) + 1,
          contentLength := (if 2 ^ 31 \<le> v then 2 ^ 31 - 1 else int v)\<rparr>) \<and>
     (rest = [] \<longrightarrow>
        headers_loop e =
          e\<lparr>client := (client e)\<lparr>rx := []\<rparr>,
            headerBytes := headerBytes e + length (name @ ws1 @ digits10 v @ ws2) + 1,
            contentLength := (if 2 ^ 31 \<le> v then 2 ^ 31 - 1 else int v)\<rparr> \<and>
        contentLength (headers_loop e) = (if 2 ^ 31 \<le> v then 2 ^ 31 - 1 else int v) \<and>
        state (headers_loop e) = state e \<and> err (headers_loop e) = err e)"
proof -
  note a = headers_loop_content_length [OF name ws1 ws2 ln rx cap1 cap2]
  have "headers_loop e =
          e\<lparr>client := (client e)\<lparr>rx := []\<rparr>,
            headerBytes := headerBytes e + length (name @ ws1 @ digits10 v @ ws2) + 1,
            contentLength := (if 2 ^ 31 \<le> v then 2 ^ 31 - 1 else int v)\<rparr>" if "rest = []"
    by (simp only: a that) (simp add: headers_loop_empty)
  then have "rest = [] \<longrightarrow>
        headers_loop e =
          e\<lparr>client := (client e)\<lparr>rx := []\<rparr>,
            headerBytes := headerBytes e + length (name @ ws1 @ digits10 v @ ws2) + 1,
            contentLength := (if 2 ^ 31 \<le> v then 2 ^ 31 - 1 else int v)\<rparr> \<and>
        contentLength (headers_loop e) = (if 2 ^ 31 \<le> v then 2 ^ 31 - 1 else int v) \<and>
        state (headers_loop e) = state e \<and> err (headers_loop e) = err e"
    by simp
  with a show ?thesis
    by (rule conjI)
qed

theorem content_length_spacing_witness:
  "contentLength (headers_loop (header_engine (''Content-Length:  42 '' @ CRLF))) = 42 \<and>
   contentLength (headers_loop (header_engine (''content-LENGTH:42'' @ CRLF))) = 42"
proof -
  have d: "digits10 42 = ''42''"
    by (simp add: digits10_def to_digits.simps char_eval)
  have f: "line (header_engine s) = []" "headerBytes (header_engine s) = 0"
    "unat (maxHeaderBytes (opt (header_engine s))) = 4096" "rx (client (header_engine s)) = s" for s
    by (simp_all add: header_engine_def new_engine_def default_Options_def)
  have n1: "map tolower ''Content-Length:'' = ''content-length:''"
    and n2: "map tolower ''content-LENGTH:'' = ''content-length:''"
    by (simp_all add: char_eval)
  have w1: "\<forall>c\<in>set ''  ''. isspace c \<and> c \<noteq> LF" and w2: "\<forall>c\<in>set ('' '' @ [CR]). isspace c \<and> c \<noteq> LF"
    and w3: "\<forall>c\<in>set []. isspace c \<and> c \<noteq> LF" and w4: "\<forall>c\<in>set [CR]. isspace c \<and> c \<noteq> LF"
    by (simp_all add: char_eval)
  let ?e1 = "header_engine (''Content-Length:  42 '' @ CRLF)"
  let ?e2 = "header_engine (''content-LENGTH:42'' @ CRLF)"
  have r1: "rx (client ?e1) = ''Content-Length:'' @ ''  '' @ digits10 42 @ ('' '' @ [CR]) @ LF # []"
    by (simp add: f d CRLF_def)
  have r2: "rx (client ?e2) = ''content-LENGTH:'' @ [] @ digits10 42 @ [CR] @ LF # []"
    by (simp add: f d CRLF_def)
  have c1: "length (''Content-Length:'' @ ''  '' @ digits10 42 @ ('' '' @ [CR])) < 512"
    "headerBytes ?e1 + length (''Content-Length:'' @ ''  '' @ digits10 42 @ ('' '' @ [CR])) <
       unat (maxHeaderBytes (opt ?e1))"
    by (simp_all add: f d)
  have c2: "length (''content-LENGTH:'' @ [] @ digits10 42 @ [CR]) < 512"
    "headerBytes ?e2 + length (''content-LENGTH:'' @ [] @ digits10 42 @ [CR]) <
       unat (maxHeaderBytes (opt ?e2))"
    by (simp_all add: f d)
  from content_length_spacing [OF n1 w1 w2 f(1) r1 c1, THEN conjunct2]
  have v1: "contentLength (headers_loop ?e1) = (if 2 ^ 31 \<le> (42::nat) then 2 ^ 31 - 1 else int 42)"
    by blast
  from content_length_spacing [OF n2 w3 w4 f(1) r2 c2, THEN conjunct2]
  have v2: "contentLength (headers_loop ?e2) = (if 2 ^ 31 \<le> (42::nat) then 2 ^ 31 - 1 else int 42)"
    by blast
  from v1 v2 show ?thesis
    by simp
qed

section \<open>The chunked body\<close>































end
